theory Spec2Isabelle
  imports Main
begin

section \<open>Python values used by RDFin\<close>

text \<open>
  A Python \<open>str\<close> is a \<open>string\<close>: each \<open>char\<close> stands for the code point of the
  same number, so the model covers the strings over U+0000 .. U+00FF. Exceptions are
  values: a function that can raise returns \<open>exn + 'a\<close>, with \<open>Inl\<close> the exception.
\<close>

datatype exn =
    RuntimeError string
  | ValueError string
  | IndexError string
  | FileNotFoundError string
  | OSError string
  | AssertionError string

fun exn_str :: "exn \<Rightarrow> string" where
  "exn_str (RuntimeError m) = m"
| "exn_str (ValueError m) = m"
| "exn_str (IndexError m) = m"
| "exn_str (FileNotFoundError m) = m"
| "exn_str (OSError m) = m"
| "exn_str (AssertionError m) = m"

definition bind :: "exn + 'a \<Rightarrow> ('a \<Rightarrow> exn + 'b) \<Rightarrow> exn + 'b" where
  "bind m f = (case m of Inl e \<Rightarrow> Inl e | Inr x \<Rightarrow> f x)"

text \<open>\<open>try: body except Exception: handler\<close>\<close>

definition try_except :: "exn + 'a \<Rightarrow> (exn \<Rightarrow> exn + 'a) \<Rightarrow> exn + 'a" where
  "try_except m h = (case m of Inl e \<Rightarrow> h e | Inr x \<Rightarrow> Inr x)"

text \<open>Truthiness of an optional string: \<open>None\<close> and \<open>""\<close> are false.\<close>

fun truthy :: "string option \<Rightarrow> bool" where
  "truthy None = False"
| "truthy (Some s) = (s \<noteq> [])"

text \<open>\<open>x or None\<close> for a string \<open>x\<close>.\<close>

definition or_None :: "string \<Rightarrow> string option" where
  "or_None s = (if s = [] then None else Some s)"

subsection \<open>Characters\<close>

text \<open>\<open>str.isspace\<close> on one code point below U+0100.\<close>

definition py_isspace :: "char \<Rightarrow> bool" where
  "py_isspace c = (c \<in> set [CHR 0x09, CHR 0x0A, CHR 0x0B, CHR 0x0C, CHR 0x0D,
     CHR 0x1C, CHR 0x1D, CHR 0x1E, CHR 0x1F, CHR 0x20, CHR 0x85, CHR 0xA0])"

text \<open>\<open>\d\<close> of the \<open>re\<close> module: below U+0100 the decimal digits are \<open>0\<close> .. \<open>9\<close>.\<close>

definition is_digit :: "char \<Rightarrow> bool" where
  "is_digit c = (c \<in> set ''0123456789'')"

definition digit_val :: "char \<Rightarrow> int" where
  "digit_val c = int (of_char c) - 48"

text \<open>
  \<open>str.lower\<close> on one code point below U+0100: \<open>A\<close> .. \<open>Z\<close> and U+00C0 .. U+00DE
  without U+00D7 move up by 32.
\<close>

definition lower_char :: "char \<Rightarrow> char" where
  "lower_char c =
     (let n = (of_char c :: nat)
      in if (65 \<le> n \<and> n \<le> 90) \<or> (192 \<le> n \<and> n \<le> 222 \<and> n \<noteq> 215)
         then char_of (n + 32) else c)"

definition py_lower :: "string \<Rightarrow> string" where
  "py_lower s = map lower_char s"

subsection \<open>String methods\<close>

definition lstrip_with :: "(char \<Rightarrow> bool) \<Rightarrow> string \<Rightarrow> string" where
  "lstrip_with P s = dropWhile P s"

definition rstrip_with :: "(char \<Rightarrow> bool) \<Rightarrow> string \<Rightarrow> string" where
  "rstrip_with P s = rev (dropWhile P (rev s))"

text \<open>\<open>s.strip()\<close>\<close>

definition py_strip :: "string \<Rightarrow> string" where
  "py_strip s = rstrip_with py_isspace (lstrip_with py_isspace s)"

text \<open>\<open>s.rstrip(chars)\<close> and \<open>s.strip(chars)\<close>\<close>

definition py_rstrip_chars :: "string \<Rightarrow> string \<Rightarrow> string" where
  "py_rstrip_chars chars s = rstrip_with (\<lambda>c. c \<in> set chars) s"

definition py_strip_chars :: "string \<Rightarrow> string \<Rightarrow> string" where
  "py_strip_chars chars s =
     rstrip_with (\<lambda>c. c \<in> set chars) (lstrip_with (\<lambda>c. c \<in> set chars) s)"

text \<open>\<open>s.startswith(p)\<close>\<close>

definition startswith :: "string \<Rightarrow> string \<Rightarrow> bool" where
  "startswith s p = (take (length p) s = p)"

definition endswith :: "string \<Rightarrow> string \<Rightarrow> bool" where
  "endswith s p = (length p \<le> length s \<and> drop (length s - length p) s = p)"

text \<open>\<open>s.split(c)\<close> for a separator of one character: one piece more than separators.\<close>

fun split_on :: "char \<Rightarrow> string \<Rightarrow> string list" where
  "split_on c [] = [[]]"
| "split_on c (x # xs) =
     (if x = c then [] # split_on c xs
      else (let r = split_on c xs in (x # hd r) # tl r))"

text \<open>\<open>s.partition("=")[2]\<close>: the text after the first \<open>=\<close>, empty when there is none.\<close>

definition after_eq :: "string \<Rightarrow> string" where
  "after_eq s = drop 1 (dropWhile (\<lambda>c. c \<noteq> CHR ''='') s)"

text \<open>\<open>s.replace(".", " ")\<close>\<close>

definition replace_dots :: "string \<Rightarrow> string" where
  "replace_dots s = map (\<lambda>c. if c = CHR ''.'' then CHR '' '' else c) s"

text \<open>
  \<open>s.split(sep)[0]\<close>: the text before the first occurrence of \<open>sep\<close>, all of \<open>s\<close> when
  \<open>sep\<close> does not occur; an empty separator raises \<open>ValueError\<close>.
\<close>

fun before_first :: "string \<Rightarrow> string \<Rightarrow> string" where
  "before_first sep [] = []"
| "before_first sep (c # cs) =
     (if startswith (c # cs) sep then [] else c # before_first sep cs)"

definition split_head :: "string \<Rightarrow> string \<Rightarrow> exn + string" where
  "split_head s sep =
     (if sep = [] then Inl (ValueError ''empty separator'') else Inr (before_first sep s))"

text \<open>
  \<open>int(s)\<close> on a run of decimal digits. On any other string the model raises
  \<open>ValueError\<close>; Python accepts a few more (a sign, blanks around the number), so the
  model fails at least as often as the code does.
\<close>

definition digits_val :: "string \<Rightarrow> int" where
  "digits_val s = foldl (\<lambda>n c. 10 * n + digit_val c) 0 s"

definition py_int :: "string \<Rightarrow> exn + int" where
  "py_int s =
     (if s \<noteq> [] \<and> (\<forall>c \<in> set s. is_digit c) then Inr (digits_val s)
      else Inl (ValueError ''invalid literal for int()''))"

text \<open>\<open>xs.index(x)\<close>: the first position of \<open>x\<close>, \<open>ValueError\<close> when absent.\<close>

fun index_from :: "nat \<Rightarrow> 'a list \<Rightarrow> 'a \<Rightarrow> exn + nat" where
  "index_from i [] x = Inl (ValueError ''x not in list'')"
| "index_from i (y # ys) x = (if y = x then Inr i else index_from (Suc i) ys x)"

definition py_index :: "'a list \<Rightarrow> 'a \<Rightarrow> exn + nat" where
  "py_index xs x = index_from 0 xs x"

text \<open>\<open>xs[i]\<close>: a negative index counts from the end; out of range raises \<open>IndexError\<close>.\<close>

definition py_nth :: "'a list \<Rightarrow> int \<Rightarrow> exn + 'a" where
  "py_nth xs i =
     (if 0 \<le> i \<and> i < int (length xs) then Inr (xs ! nat i)
      else if i < 0 \<and> - i \<le> int (length xs) then Inr (xs ! nat (int (length xs) + i))
      else Inl (IndexError ''list index out of range''))"

text \<open>
  The format \<open>{n:02d}\<close>: the decimal digits of \<open>n\<close> after its sign, zero-padded to a
  total width of two.
\<close>

fun nat_digits :: "nat \<Rightarrow> string" where
  "nat_digits n =
     (if n < 10 then [char_of (48 + n)]
      else nat_digits (n div 10) @ [char_of (48 + n mod 10)])"

definition fmt02d :: "int \<Rightarrow> string" where
  "fmt02d n =
     (if n < 0 then CHR ''-'' # nat_digits (nat (- n))
      else if n < 10 then CHR ''0'' # nat_digits (nat n)
      else nat_digits (nat n))"

subsection \<open>\<open>pathlib\<close> paths (POSIX flavour)\<close>

text \<open>
  A pure path is its root (\<open>""\<close>, \<open>"/"\<close> or \<open>"//"\<close>) and its components. Parsing drops
  empty components and \<open>"."\<close>; exactly two leading slashes are kept as the root \<open>"//"\<close>.
\<close>

datatype ppath = PPath (anchor: string) (segs: "string list")

definition Path :: "string \<Rightarrow> ppath" where
  "Path s =
     (let n = length (takeWhile (\<lambda>c. c = CHR ''/'') s);
          rel = dropWhile (\<lambda>c. c = CHR ''/'') s;
          root = (if n = 0 then [] else if n = 2 then ''//'' else ''/'')
      in PPath root (filter (\<lambda>x. x \<noteq> [] \<and> x \<noteq> ''.'') (split_on CHR ''/'' rel)))"

text \<open>\<open>p.parts\<close>, \<open>p.name\<close>, \<open>p.stem\<close>, \<open>p.parent\<close>, \<open>p / s\<close>, \<open>str(p)\<close>\<close>

definition parts :: "ppath \<Rightarrow> string list" where
  "parts p = (if anchor p = [] then [] else [anchor p]) @ segs p"

definition pname :: "ppath \<Rightarrow> string" where
  "pname p = (if segs p = [] then [] else last (segs p))"

fun rfind :: "char \<Rightarrow> string \<Rightarrow> nat option" where
  "rfind c [] = None"
| "rfind c (x # xs) =
     (case rfind c xs of
        Some i \<Rightarrow> Some (Suc i)
      | None \<Rightarrow> if x = c then Some 0 else None)"

text \<open>
  \<open>stem\<close> cuts the name at its last dot when \<open>0 < i < len(name) - 1\<close>, \<open>i\<close> the position
  of that dot.
\<close>

definition stem_of_name :: "string \<Rightarrow> string" where
  "stem_of_name name =
     (case rfind CHR ''.'' name of
        None \<Rightarrow> name
      | Some i \<Rightarrow> if 0 < i \<and> i + 1 < length name then take i name else name)"

definition stem :: "ppath \<Rightarrow> string" where
  "stem p = stem_of_name (pname p)"

definition parent :: "ppath \<Rightarrow> ppath" where
  "parent p = PPath (anchor p) (butlast (segs p))"

definition path_div :: "ppath \<Rightarrow> string \<Rightarrow> ppath" where
  "path_div p s =
     (let q = Path s
      in if anchor q \<noteq> [] then q else PPath (anchor p) (segs p @ segs q))"

fun join_slash :: "string list \<Rightarrow> string" where
  "join_slash [] = []"
| "join_slash [x] = x"
| "join_slash (x # y # ys) = x @ ''/'' @ join_slash (y # ys)"

definition path_str :: "ppath \<Rightarrow> string" where
  "path_str p =
     (let s = anchor p @ join_slash (segs p) in if s = [] then ''.'' else s)"

section \<open>\<open>rdfin_strm.py\<close>: names\<close>

definition reserved_chars :: string where
  "reserved_chars = [CHR 0x5C, CHR ''/'', CHR '':'', CHR ''*'', CHR ''?'', CHR 0x22,
     CHR ''<'', CHR ''>'', CHR ''|'']"

definition sanitize_name :: "string \<Rightarrow> string" where
  "sanitize_name name =
     (if name = [] then ''unnamed''
      else (let safe = py_strip (filter (\<lambda>c. c \<notin> set reserved_chars) name)
            in py_strip (py_rstrip_chars ''. '' safe)))"

definition strip_extension :: "string \<Rightarrow> string" where
  "strip_extension name = (if name \<noteq> [] then stem (Path name) else ''unnamed'')"

section \<open>Regular expressions of the source\<close>

text \<open>
  Each \<open>re.search\<close> of the source is a matcher for the pattern at the front of a string
  and a search for the leftmost position where it matches. \<open>\d{1,2}\<close> is greedy: two
  digits are tried before one.
\<close>

definition digits_1_2 :: "string \<Rightarrow> string list" where
  "digits_1_2 s =
     (case s of
        [] \<Rightarrow> []
      | [d] \<Rightarrow> if is_digit d then [[d]] else []
      | d # e # _ \<Rightarrow>
          if is_digit d \<and> is_digit e then [[d, e], [d]]
          else if is_digit d then [[d]] else [])"

definition first_some :: "('a \<Rightarrow> 'b option) \<Rightarrow> 'a list \<Rightarrow> 'b option" where
  "first_some f xs = (case List.map_filter f xs of [] \<Rightarrow> None | y # _ \<Rightarrow> Some y)"

text \<open>\<open>S\d{2}E\d{2}\<close> with \<open>re.IGNORECASE\<close>, used by the two episode operations.\<close>

fun match_SddEdd :: "string \<Rightarrow> bool" where
  "match_SddEdd (s # d1 # d2 # e # d3 # d4 # _) =
     (s \<in> set ''Ss'' \<and> is_digit d1 \<and> is_digit d2 \<and> e \<in> set ''Ee'' \<and> is_digit d3 \<and> is_digit d4)"
| "match_SddEdd _ = False"

fun search_SddEdd :: "string \<Rightarrow> bool" where
  "search_SddEdd [] = False"
| "search_SddEdd (c # cs) = (match_SddEdd (c # cs) \<or> search_SddEdd cs)"

text \<open>\<open>(\d{1,2})\<close>: group 1 of the leftmost match.\<close>

fun search_digits :: "string \<Rightarrow> string option" where
  "search_digits [] = None"
| "search_digits (c # cs) =
     (case digits_1_2 (c # cs) of g # _ \<Rightarrow> Some g | [] \<Rightarrow> search_digits cs)"

text \<open>\<open>([Ss](\d{1,2})[Ee]\d{1,2})\<close>: groups 1 and 2 of the leftmost match.\<close>

definition match_SxEx :: "string \<Rightarrow> (string \<times> string) option" where
  "match_SxEx s =
     (case s of
        [] \<Rightarrow> None
      | c # r \<Rightarrow>
          if c \<in> set ''Ss'' then
            first_some (\<lambda>n.
              (case drop (length n) r of
                 [] \<Rightarrow> None
               | e # r' \<Rightarrow>
                   if e \<in> set ''Ee'' then
                     (case digits_1_2 r' of
                        [] \<Rightarrow> None
                      | m # _ \<Rightarrow> Some (c # n @ e # m, n))
                   else None)) (digits_1_2 r)
          else None)"

fun search_SxEx :: "string \<Rightarrow> (string \<times> string) option" where
  "search_SxEx [] = None"
| "search_SxEx (c # cs) =
     (case match_SxEx (c # cs) of Some g \<Rightarrow> Some g | None \<Rightarrow> search_SxEx cs)"

text \<open>
  \<open>[Ss]eason[ ._-]?(\d{1,2})\<close> with \<open>re.IGNORECASE\<close>: groups 0 and 1. The optional
  separator is greedy: it is tried before the empty match.
\<close>

definition optional_sep :: "string \<Rightarrow> (string \<times> string) list" where
  "optional_sep r =
     (case r of
        [] \<Rightarrow> [([], r)]
      | c # r' \<Rightarrow> if c \<in> set '' ._-'' then [([c], r'), ([], r)] else [([], r)])"

definition match_season :: "string \<Rightarrow> (string \<times> string) option" where
  "match_season s =
     (if length s \<ge> 6 \<and> py_lower (take 6 s) = ''season'' then
        first_some (\<lambda>(sep, r2).
          (case digits_1_2 r2 of
             [] \<Rightarrow> None
           | n # _ \<Rightarrow> Some (take 6 s @ sep @ n, n))) (optional_sep (drop 6 s))
      else None)"

fun search_season :: "string \<Rightarrow> (string \<times> string) option" where
  "search_season [] = None"
| "search_season (c # cs) =
     (case match_season (c # cs) of Some g \<Rightarrow> Some g | None \<Rightarrow> search_season cs)"

section \<open>\<open>app.py\<close>: identity inference\<close>

definition season_of_folder :: "string \<Rightarrow> exn + int option" where
  "season_of_folder season_folder =
     (case search_digits season_folder of
        Some g \<Rightarrow> bind (py_int g) (\<lambda>n. Inr (Some n))
      | None \<Rightarrow> Inr None)"

text \<open>The body of the \<open>try\<close> in \<open>infer_show_and_season_from_target\<close>, with its fall-through.\<close>

definition target_parts :: "string \<Rightarrow> string list" where
  "target_parts target = filter (\<lambda>part. part \<noteq> [] \<and> part \<noteq> ''/'') (parts (Path target))"

definition infer_target_body :: "string \<Rightarrow> exn + (string option \<times> int option)" where
  "infer_target_body target =
     (let ps = target_parts target;
          lower_parts = map py_lower ps
      in if ''tv'' \<in> set lower_parts then
           bind (py_index lower_parts ''tv'') (\<lambda>idx.
           bind (if length ps > idx + 1
                 then bind (py_nth ps (int idx + 1)) (\<lambda>x. Inr (Some x))
                 else Inr None) (\<lambda>show.
           bind (if length ps > idx + 2
                 then bind (py_nth ps (int idx + 2)) (\<lambda>x. Inr (Some x))
                 else Inr None) (\<lambda>season_folder.
           bind (if truthy season_folder
                 then season_of_folder (the season_folder)
                 else Inr None) (\<lambda>season_num.
           Inr (show, season_num)))))
         else if length ps \<ge> 3 then
           bind (py_nth ps (- 3)) (\<lambda>show.
           bind (py_nth ps (- 2)) (\<lambda>season_folder.
           bind (season_of_folder season_folder) (\<lambda>season_num.
           Inr (Some show, season_num))))
         else Inr (None, None))"

definition infer_show_and_season_from_target ::
  "string \<Rightarrow> exn + (string option \<times> int option)" where
  "infer_show_and_season_from_target target =
     (if target = [] then Inr (None, None)
      else try_except (infer_target_body target) (\<lambda>e. Inr (None, None)))"

definition infer_from_filename_for_season ::
  "string \<Rightarrow> exn + (string option \<times> int option)" where
  "infer_from_filename_for_season fname =
     (if fname = [] then Inr (None, None)
      else
        (let base = stem (Path fname)
         in case search_SxEx base of
              Some (g1, g2) \<Rightarrow>
                bind (py_int g2) (\<lambda>season_num.
                bind (split_head base g1) (\<lambda>h.
                  (let show_part = py_strip_chars '' -._.'' h;
                       show = (if show_part \<noteq> []
                               then Some (py_strip (replace_dots show_part)) else None)
                   in Inr (show, Some season_num))))
            | None \<Rightarrow>
                (case search_season base of
                   Some (g0, g1) \<Rightarrow>
                     bind (py_int g1) (\<lambda>season_num.
                     bind (split_head base g0) (\<lambda>h.
                       Inr (or_None (py_strip (replace_dots h)), Some season_num)))
                 | None \<Rightarrow> Inr (None, None))))"

subsection \<open>Names from URLs\<close>

text \<open>
  \<open>urllib.parse\<close> is not part of the repository: \<open>urlparse\<close> (which raises
  \<open>ValueError\<close> on some malformed URLs) and \<open>unquote\<close> are parameters of the model.
\<close>

record parsed_url =
  url_path :: string
  url_netloc :: string

record urllib =
  urlparse :: "string \<Rightarrow> exn + parsed_url"
  unquote :: "string \<Rightarrow> string"

definition name_from_url :: "urllib \<Rightarrow> string \<Rightarrow> exn + string" where
  "name_from_url U url =
     try_except
       (bind (urlparse U url) (\<lambda>p.
          (let name = pname (Path (unquote U (url_path p)));
               name' = (if name = [] then map (\<lambda>c. if c = CHR ''.'' then CHR ''_'' else c) (url_netloc p)
                        else name)
           in Inr (sanitize_name name'))))
       (\<lambda>e. Inr ''unnamed'')"

section \<open>\<open>rdfin_strm.py\<close>: the operations\<close>

subsection \<open>Effects\<close>

text \<open>
  An operation with effects runs in a world \<open>'w\<close> and returns its result, or the
  exception it raised, with the world it leaves behind: what was written before an
  exception stays written.
\<close>

type_synonym ('w, 'a) io = "'w \<Rightarrow> (exn + 'a) \<times> 'w"

definition io_return :: "'a \<Rightarrow> ('w, 'a) io" where
  "io_return x = (\<lambda>w. (Inr x, w))"

definition io_raise :: "exn \<Rightarrow> ('w, 'a) io" where
  "io_raise e = (\<lambda>w. (Inl e, w))"

definition io_lift :: "exn + 'a \<Rightarrow> ('w, 'a) io" where
  "io_lift r = (\<lambda>w. (r, w))"

definition io_bind :: "('w, 'a) io \<Rightarrow> ('a \<Rightarrow> ('w, 'b) io) \<Rightarrow> ('w, 'b) io" where
  "io_bind m f = (\<lambda>w. case m w of (Inl e, w') \<Rightarrow> (Inl e, w') | (Inr x, w') \<Rightarrow> f x w')"

text \<open>
  What \<open>unrestrict\<close> returns: the keys \<open>filename\<close> and \<open>direct\<close> of its dictionary.
\<close>

record rd_response =
  rd_filename :: "string option"
  rd_direct :: "string option"

text \<open>
  The collaborators of the engine are parameters: the configuration, the Real-Debrid
  call behind \<open>unrestrict\<close>, the file system calls (\<open>mkdir(parents=True,
  exist_ok=True)\<close>, writing and appending a text file, \<open>glob("*.strm")\<close> in a
  directory) and the clock. Each may raise and may change the world.
\<close>

record 'w env =
  media_root :: ppath
  log_root :: ppath
  urls :: urllib
  unrestrict :: "string \<Rightarrow> ('w, rd_response) io"
  mkdir_parents :: "ppath \<Rightarrow> ('w, unit) io"
  write_text :: "ppath \<Rightarrow> string \<Rightarrow> ('w, unit) io"
  append_text :: "ppath \<Rightarrow> string \<Rightarrow> ('w, unit) io"
  glob_strm :: "ppath \<Rightarrow> ('w, string list) io"
  today :: "('w, string) io"
  iso_now :: "('w, string) io"

definition write_strm_file :: "'w env \<Rightarrow> ppath \<Rightarrow> string \<Rightarrow> ('w, unit) io" where
  "write_strm_file E dest direct_url =
     io_bind (mkdir_parents E (parent dest)) (\<lambda>_.
       write_text E dest (py_strip direct_url @ [CHR 0x0A]))"

definition log_entry ::
  "'w env \<Rightarrow> string \<Rightarrow> string \<Rightarrow> ppath \<Rightarrow> string option \<Rightarrow> ('w, unit) io" where
  "log_entry E media_type original_link target_path rd_fname =
     (if media_type \<noteq> ''movies'' \<and> media_type \<noteq> ''tv'' then io_raise (AssertionError [])
      else
        (let logs_dir = path_div (log_root E) media_type
         in io_bind (mkdir_parents E logs_dir) (\<lambda>_.
            io_bind (today E) (\<lambda>date_str.
              (let log_file = path_div logs_dir (date_str @ ''.log'')
               in io_bind (iso_now E) (\<lambda>ts.
                    (let rdname = (case rd_fname of None \<Rightarrow> [] | Some f \<Rightarrow> f);
                         line = ts @ '' | link='' @ original_link @ '' | target=''
                                @ path_str target_path @ '' | rd_filename='' @ rdname
                                @ [CHR 0x0A]
                     in append_text E log_file line)))))))"

subsection \<open>Single movie and episode\<close>

text \<open>The destination of \<open>add_movie\<close>: \<open>base\<close>, \<open>safe\<close>, \<open>folder\<close> and \<open>strm_path\<close>.\<close>

definition add_movie_dest :: "'w env \<Rightarrow> string \<Rightarrow> ppath" where
  "add_movie_dest E title =
     (let base = strip_extension title;
          safe = sanitize_name base;
          folder = path_div (path_div (media_root E) ''movies'') safe
      in path_div folder (safe @ ''.strm''))"

definition add_movie :: "'w env \<Rightarrow> string \<Rightarrow> string \<Rightarrow> ('w, unit) io" where
  "add_movie E title link =
     (let strm_path = add_movie_dest E title
      in io_bind (unrestrict E link) (\<lambda>resp.
           if \<not> truthy (rd_direct resp)
           then io_raise (RuntimeError ''No direct link returned from Real-Debrid.'')
           else io_bind (write_strm_file E strm_path (the (rd_direct resp))) (\<lambda>_.
                  log_entry E ''movies'' link strm_path (rd_filename resp))))"

text \<open>
  The destination of \<open>add_episode\<close>, computed from the response: \<open>show_name\<close>,
  \<open>season_folder\<close>, \<open>base\<close>, \<open>base_safe\<close>, \<open>final_name\<close> and \<open>dest\<close>.
\<close>

definition add_episode_dest ::
  "'w env \<Rightarrow> string \<Rightarrow> int \<Rightarrow> int \<Rightarrow> rd_response \<Rightarrow> exn + ppath" where
  "add_episode_dest E show season episode resp =
     (let show_name = sanitize_name show;
          season_folder = ''Season '' @ fmt02d season
      in bind (if truthy (rd_filename resp)
               then Inr (strip_extension (the (rd_filename resp)))
               else bind (name_from_url (urls E) (the (rd_direct resp))) (\<lambda>base.
                      Inr (strip_extension base))) (\<lambda>base.
           (let base_safe = sanitize_name base;
                final_name =
                  (if search_SddEdd base_safe then base_safe @ ''.strm''
                   else base_safe @ '' - '' @ (''S'' @ fmt02d season @ ''E'' @ fmt02d episode)
                        @ ''.strm'')
            in Inr (path_div (path_div (path_div (path_div (media_root E) ''tv'') show_name)
                       season_folder) final_name))))"

definition add_episode :: "'w env \<Rightarrow> string \<Rightarrow> int \<Rightarrow> int \<Rightarrow> string \<Rightarrow> ('w, unit) io" where
  "add_episode E show season episode link =
     io_bind (unrestrict E link) (\<lambda>resp.
       if \<not> truthy (rd_direct resp)
       then io_raise (RuntimeError ''No direct link returned from Real-Debrid.'')
       else io_bind (io_lift (add_episode_dest E show season episode resp)) (\<lambda>dest.
            io_bind (write_strm_file E dest (the (rd_direct resp))) (\<lambda>_.
              log_entry E ''tv'' link dest (rd_filename resp))))"

subsection \<open>Lists of links\<close>

text \<open>
  \<open>strip_extension(fname or name_from_url(link) or default)\<close>, after \<open>fname\<close> was
  taken from the direct URL when the response has no filename.
\<close>

definition batch_base :: "urllib \<Rightarrow> rd_response \<Rightarrow> string \<Rightarrow> string \<Rightarrow> exn + string" where
  "batch_base U resp link dflt =
     bind (if \<not> truthy (rd_filename resp) \<and> truthy (rd_direct resp)
           then bind (name_from_url U (the (rd_direct resp))) (\<lambda>n. Inr (Some n))
           else Inr (rd_filename resp)) (\<lambda>fname.
     bind (if truthy fname then Inr (the fname)
           else bind (name_from_url U link) (\<lambda>n. Inr (if n \<noteq> [] then n else dflt))) (\<lambda>name.
     Inr (strip_extension name)))"

text \<open>The body of the \<open>try\<close> of \<open>add_movie_links_from_list\<close>, for one link.\<close>

definition movie_link_dest :: "'w env \<Rightarrow> rd_response \<Rightarrow> string \<Rightarrow> exn + ppath" where
  "movie_link_dest E resp link =
     bind (batch_base (urls E) resp link ''unnamed'') (\<lambda>base.
       (let safe = sanitize_name base
        in Inr (path_div (path_div (path_div (media_root E) ''movies'') safe)
                  (safe @ ''.strm''))))"

definition movie_link_body :: "'w env \<Rightarrow> string \<Rightarrow> ('w, unit) io" where
  "movie_link_body E link =
     io_bind (unrestrict E link) (\<lambda>resp.
       if \<not> truthy (rd_direct resp) then io_raise (RuntimeError ''No direct URL returned'')
       else io_bind (io_lift (movie_link_dest E resp link)) (\<lambda>dest.
            io_bind (write_strm_file E dest (the (rd_direct resp))) (\<lambda>_.
              log_entry E ''movies'' link dest (rd_filename resp))))"

text \<open>The body of the \<open>try\<close> of \<open>add_episode_links_from_list\<close>, for one link.\<close>

definition episode_link_body ::
  "'w env \<Rightarrow> string \<Rightarrow> int \<Rightarrow> ppath \<Rightarrow> string \<Rightarrow> ('w, unit) io" where
  "episode_link_body E show_name season season_path link =
     io_bind (unrestrict E link) (\<lambda>resp.
       if \<not> truthy (rd_direct resp) then io_raise (RuntimeError ''No direct URL returned'')
       else
         io_bind (io_lift (batch_base (urls E) resp link (show_name @ ''_ep''))) (\<lambda>base.
           (let base_safe = sanitize_name base
            in io_bind
                 (if search_SddEdd base_safe then io_return (base_safe @ ''.strm'')
                  else io_bind (glob_strm E season_path) (\<lambda>found.
                         (let existing = length found;
                              idx = existing + 1;
                              sxxexx = ''S'' @ fmt02d season @ ''E'' @ fmt02d (int idx)
                          in io_return (base_safe @ '' - '' @ sxxexx @ ''.strm''))))
                 (\<lambda>final_name.
                    (let dest = path_div season_path final_name
                     in io_bind (write_strm_file E dest (the (rd_direct resp))) (\<lambda>_.
                          log_entry E ''tv'' link dest (rd_filename resp)))))))"

text \<open>
  The loop of both list operations: a blank line is skipped; an exception of the body
  is caught and recorded with the link; otherwise the count goes up.
\<close>

fun links_loop ::
  "(string \<Rightarrow> ('w, unit) io) \<Rightarrow> string list \<Rightarrow> nat \<Rightarrow> (string \<times> string) list \<Rightarrow> 'w
     \<Rightarrow> (nat \<times> (string \<times> string) list) \<times> 'w" where
  "links_loop body [] written errors w = ((written, errors), w)"
| "links_loop body (l # ls) written errors w =
     (let link = py_strip l
      in if link = [] then links_loop body ls written errors w
         else (case body link w of
                 (Inr _, w') \<Rightarrow> links_loop body ls (written + 1) errors w'
               | (Inl e, w') \<Rightarrow> links_loop body ls written (errors @ [(link, exn_str e)]) w'))"

definition add_movie_links_from_list ::
  "'w env \<Rightarrow> string list \<Rightarrow> ('w, nat \<times> (string \<times> string) list) io" where
  "add_movie_links_from_list E links =
     (\<lambda>w. case links_loop (movie_link_body E) links 0 [] w of (r, w') \<Rightarrow> (Inr r, w'))"

definition add_episode_links_from_list ::
  "'w env \<Rightarrow> string \<Rightarrow> int \<Rightarrow> string list \<Rightarrow> ('w, nat \<times> (string \<times> string) list) io" where
  "add_episode_links_from_list E show season links =
     (let show_name = sanitize_name show;
          season_folder = ''Season '' @ fmt02d season;
          season_path = path_div (path_div (path_div (media_root E) ''tv'') show_name) season_folder
      in io_bind (mkdir_parents E season_path) (\<lambda>_.
           (\<lambda>w. case links_loop (episode_link_body E show_name season season_path) links 0 [] w of
                  (r, w') \<Rightarrow> (Inr r, w'))))"

section \<open>\<open>app.py\<close>: log parsing and re-fetch grouping\<close>

text \<open>An entry of \<open>parse_log_entries\<close>: the dictionary with the keys \<open>link\<close>, \<open>target\<close>, \<open>raw\<close>.\<close>

record entry =
  e_link :: "string option"
  e_target :: "string option"
  e_raw :: string

text \<open>The loop over the parts of a line that sets \<open>link\<close> and \<open>target\<close>.\<close>

fun scan_parts :: "string list \<Rightarrow> string option \<Rightarrow> string option \<Rightarrow> string option \<times> string option" where
  "scan_parts [] link target = (link, target)"
| "scan_parts (p # ps) link target =
     (let lp = py_lower p
      in if startswith lp ''link='' then scan_parts ps (Some (py_strip (after_eq p))) target
         else if startswith lp ''target='' then scan_parts ps link (Some (py_strip (after_eq p)))
         else scan_parts ps link target)"

text \<open>The fallback: the last part that starts with \<open>http://\<close> or \<open>https://\<close>.\<close>

definition bare_url :: "string list \<Rightarrow> string option" where
  "bare_url ps = List.find (\<lambda>p. startswith p ''http://'' \<or> startswith p ''https://'') (rev ps)"

definition parse_line :: "string \<Rightarrow> entry option" where
  "parse_line ln0 =
     (let ln = py_strip ln0
      in if ln = [] then None
         else
           (let ps = map py_strip (split_on CHR ''|'' ln);
                (link, target) = scan_parts ps None None;
                link' = (if \<not> truthy link
                         then (case bare_url ps of Some p \<Rightarrow> Some p | None \<Rightarrow> link)
                         else link)
            in Some \<lparr>e_link = link', e_target = target, e_raw = ln\<rparr>))"

text \<open>The log file is its lines, or \<open>None\<close> when the path does not exist.\<close>

definition parse_log_entries :: "string list option \<Rightarrow> entry list" where
  "parse_log_entries file =
     (case file of None \<Rightarrow> [] | Some lns \<Rightarrow> List.map_filter parse_line lns)"

text \<open>Truthiness of an optional integer: \<open>None\<close> and \<open>0\<close> are false.\<close>

fun truthy_int :: "int option \<Rightarrow> bool" where
  "truthy_int None = False"
| "truthy_int (Some n) = (n \<noteq> 0)"

text \<open>
  The body of the grouping loop for one entry with a link: the three inference steps,
  which leave \<open>(show, season)\<close>, and then the defaults, which give the key.
\<close>

definition infer_identity :: "string \<Rightarrow> string option \<Rightarrow> exn + (string option \<times> int option)" where
  "infer_identity link target =
     bind (if truthy target
           then bind (infer_show_and_season_from_target (the target)) (\<lambda>(s, sn).
                  Inr (if truthy s then (s, sn) else (None, None)))
           else Inr (None, None)) (\<lambda>(show1, season1).
     bind (if \<not> truthy show1 \<and> truthy target
           then try_except
                  (bind (infer_from_filename_for_season (pname (Path (the target)))) (\<lambda>(s, sn).
                     Inr (if truthy s \<or> truthy_int sn then (s, sn) else (show1, season1))))
                  (\<lambda>e. Inr (show1, season1))
           else Inr (show1, season1)) (\<lambda>(show2, season2).
     if \<not> truthy show2
     then bind (infer_from_filename_for_season link) (\<lambda>(s, sn).
            Inr (if truthy s \<or> truthy_int sn then (s, sn) else (show2, season2)))
     else Inr (show2, season2)))"

definition group_key :: "string option \<times> int option \<Rightarrow> string \<times> int" where
  "group_key ident =
     (case ident of (show, season) \<Rightarrow>
        ((if \<not> truthy show then ''Unknown'' else the show),
         (if \<not> truthy_int season then 1 else the season)))"

text \<open>\<open>groups.setdefault(key, []).append(link)\<close> on a dictionary kept in insertion order.\<close>

type_synonym groups = "((string \<times> int) \<times> string list) list"

definition setdefault_append :: "string \<times> int \<Rightarrow> string \<Rightarrow> groups \<Rightarrow> groups" where
  "setdefault_append key link g =
     (if key \<in> set (map fst g)
      then map (\<lambda>(k, ls). if k = key then (k, ls @ [link]) else (k, ls)) g
      else g @ [(key, [link])])"

fun group_entries :: "entry list \<Rightarrow> groups \<Rightarrow> exn + groups" where
  "group_entries [] g = Inr g"
| "group_entries (e # es) g =
     (if \<not> truthy (e_link e) then group_entries es g
      else bind (infer_identity (the (e_link e)) (e_target e)) (\<lambda>ident.
             group_entries es (setdefault_append (group_key ident) (the (e_link e)) g)))"

text \<open>
  A started job: the links written to its temporary file and, for \<open>tv\<close>, the show and
  season of its command line. Creating the file and spawning the process are outside
  the model.
\<close>

datatype job = MoviesJob "string list" | TvJob string int "string list"

definition spawn_refresh_job_simple :: "string \<Rightarrow> string list option \<Rightarrow> exn + job list" where
  "spawn_refresh_job_simple media_type logfile =
     (if logfile = None then Inl (FileNotFoundError ''log not found'')
      else
        (let entries = parse_log_entries logfile
         in if entries = [] then Inl (RuntimeError ''no links found in log'')
            else if media_type = ''movies'' then
              (let links = map (\<lambda>e. the (e_link e)) (filter (\<lambda>e. truthy (e_link e)) entries)
               in if links = [] then Inl (RuntimeError ''no links found in movie log'')
                  else Inr [MoviesJob links])
            else
              bind (group_entries entries []) (\<lambda>g.
                Inr (map (\<lambda>((show, season), links). TvJob show season links) g))))"

section \<open>Notions of the specification\<close>

text \<open>The element at a position of a list, when there is one.\<close>

definition nth_opt :: "'a list \<Rightarrow> nat \<Rightarrow> 'a option" where
  "nth_opt xs i = (if i < length xs then Some (xs ! i) else None)"

text \<open>
  The specification's "first 1-2 digit run" of a folder name, as a number: the first
  digit of the name, together with the character after it when that is a digit too.
\<close>

definition spec_first_digit_run :: "string \<Rightarrow> int option" where
  "spec_first_digit_run s =
     (case dropWhile (\<lambda>c. \<not> is_digit c) s of
        [] \<Rightarrow> None
      | r \<Rightarrow> Some (digits_val (takeWhile is_digit (take 2 r))))"

text \<open>A run of one or two decimal digits, as \<open>\d{1,2}\<close> matches it.\<close>

definition digit_run :: "string \<Rightarrow> bool" where
  "digit_run d = (d \<noteq> [] \<and> length d \<le> 2 \<and> list_all is_digit d)"

text \<open>
  The show read off the text in front of an episode marker: the separators \<open>.\<close>,
  \<open>-\<close>, \<open>_\<close> and the space are trimmed off both ends; nothing left means no show;
  otherwise the dots become spaces and the blanks around the result are dropped.
\<close>

definition spec_show_of :: "string \<Rightarrow> string option" where
  "spec_show_of pre =
     (let t = py_strip_chars '' -._'' pre
      in if t = [] then None else Some (py_strip (replace_dots t)))"

text \<open>
  A string contains a marker \<open>S<2 digits>E<2 digits>\<close>, in either letter case.
\<close>

definition spec_has_marker :: "string \<Rightarrow> bool" where
  "spec_has_marker s =
     (\<exists>pre c d1 d2 e d3 d4 post.
        s = pre @ [c, d1, d2, e, d3, d4] @ post \<and> c \<in> set ''Ss'' \<and> is_digit d1 \<and> is_digit d2
        \<and> e \<in> set ''Ee'' \<and> is_digit d3 \<and> is_digit d4)"

text \<open>
  The descriptor is placed: the direct URL of the response is written to \<open>dest\<close> and
  the transaction is logged.
\<close>

definition placed :: "'w env \<Rightarrow> string \<Rightarrow> string \<Rightarrow> rd_response \<Rightarrow> ppath \<Rightarrow> ('w, unit) io" where
  "placed E media_type link resp dest =
     io_bind (write_strm_file E dest (the (rd_direct resp))) (\<lambda>_.
       log_entry E media_type link dest (rd_filename resp))"

text \<open>
  What happens to each link of a list, in order: the link as stripped, and the result
  of its body in the world left by the links before it. Blank lines have no outcome.
\<close>

fun item_outcomes ::
  "(string \<Rightarrow> ('w, unit) io) \<Rightarrow> string list \<Rightarrow> 'w \<Rightarrow> (string \<times> (exn + unit)) list" where
  "item_outcomes body [] w = []"
| "item_outcomes body (l # ls) w =
     (if py_strip l = [] then item_outcomes body ls w
      else (py_strip l, fst (body (py_strip l) w)) # item_outcomes body ls (snd (body (py_strip l) w)))"

definition failures :: "(string \<times> (exn + unit)) list \<Rightarrow> (string \<times> string) list" where
  "failures os = List.map_filter (\<lambda>(link, r). case r of Inl e \<Rightarrow> Some (link, exn_str e) | Inr _ \<Rightarrow> None) os"

definition successes :: "(string \<times> (exn + unit)) list \<Rightarrow> string list" where
  "successes os = List.map_filter (\<lambda>(link, r). case r of Inl e \<Rightarrow> None | Inr _ \<Rightarrow> Some link) os"

text \<open>
  The key under which the grouping files an entry, and the links of the entries filed
  under a key, in the order of the log.
\<close>

definition entry_key :: "entry \<Rightarrow> (string \<times> int) option" where
  "entry_key e =
     (case infer_identity (the (e_link e)) (e_target e) of
        Inl _ \<Rightarrow> None
      | Inr ident \<Rightarrow> Some (group_key ident))"

definition keyed_links :: "entry list \<Rightarrow> string \<times> int \<Rightarrow> string list" where
  "keyed_links es k =
     map (\<lambda>e. the (e_link e)) (filter (\<lambda>e. truthy (e_link e) \<and> entry_key e = Some k) es)"

definition group_links :: "groups \<Rightarrow> string \<times> int \<Rightarrow> string list" where
  "group_links g k = (case map_of g k of None \<Rightarrow> [] | Some ls \<Rightarrow> ls)"


section \<open>An environment in memory\<close>

text \<open>
  One instance of the collaborators, for the examples: the files and the log lines are
  lists, no file system call fails, the resolver \<open>R\<close> answers from the link alone, and
  \<open>urlparse\<close> is as on a URL without scheme, host, query and fragment (the URL is its
  path).
\<close>

record mem =
  files :: "(ppath \<times> string) list"
  log_lines :: "(ppath \<times> string) list"

definition plain_urllib :: urllib where
  "plain_urllib = \<lparr>urlparse = (\<lambda>u. Inr \<lparr>url_path = u, url_netloc = []\<rparr>), unquote = (\<lambda>s. s)\<rparr>"

definition mem_write :: "ppath \<Rightarrow> string \<Rightarrow> (mem, unit) io" where
  "mem_write p c = (\<lambda>w. (Inr (), w\<lparr>files := filter (\<lambda>f. fst f \<noteq> p) (files w) @ [(p, c)]\<rparr>))"

definition mem_append :: "ppath \<Rightarrow> string \<Rightarrow> (mem, unit) io" where
  "mem_append p c = (\<lambda>w. (Inr (), w\<lparr>log_lines := log_lines w @ [(p, c)]\<rparr>))"

definition mem_glob_strm :: "ppath \<Rightarrow> (mem, string list) io" where
  "mem_glob_strm d =
     (\<lambda>w. (Inr (map (\<lambda>f. pname (fst f))
                  (filter (\<lambda>f. segs (fst f) \<noteq> [] \<and> parent (fst f) = d
                               \<and> endswith (pname (fst f)) ''.strm'') (files w))), w))"

definition mem_env :: "(string \<Rightarrow> exn + rd_response) \<Rightarrow> mem env" where
  "mem_env R =
     \<lparr>media_root = Path ''/media'',
      log_root = Path ''/fetch_logs'',
      urls = plain_urllib,
      unrestrict = (\<lambda>link. io_lift (R link)),
      mkdir_parents = (\<lambda>p. io_return ()),
      write_text = mem_write,
      append_text = mem_append,
      glob_strm = mem_glob_strm,
      today = io_return ''2026-01-01'',
      iso_now = io_return ''2026-01-01T00:00:00+00:00''\<rparr>"

definition empty_mem :: mem where
  "empty_mem = \<lparr>files = [], log_lines = []\<rparr>"

text \<open>A resolver that knows three links and fails on the second.\<close>

definition three_links :: "string \<Rightarrow> exn + rd_response" where
  "three_links link =
     (if link = ''L1'' then Inr \<lparr>rd_filename = Some ''One.mkv'', rd_direct = Some ''http://d/1''\<rparr>
      else if link = ''L3'' then Inr \<lparr>rd_filename = Some ''Three.S01E07.mkv'', rd_direct = Some ''http://d/3''\<rparr>
      else Inl (RuntimeError ''Real-Debrid error 503: busy''))"

definition one_link :: "string option \<Rightarrow> string \<Rightarrow> exn + rd_response" where
  "one_link fname link = Inr \<lparr>rd_filename = fname, rd_direct = Some ''http://d/x''\<rparr>"




section \<open>Basic facts\<close>

lemma bind_Inr [simp]: "bind (Inr x) f = f x"
  by (simp add: bind_def)

lemma bind_Inl [simp]: "bind (Inl e) f = Inl e"
  by (simp add: bind_def)

lemma digits_1_2_nondigit: "\<not> is_digit c \<Longrightarrow> digits_1_2 (c # cs) = []"
  by (cases cs) (simp_all add: digits_1_2_def)

lemma digits_1_2_digit:
  "is_digit c \<Longrightarrow> \<exists>rest. digits_1_2 (c # cs) = takeWhile is_digit (take 2 (c # cs)) # rest"
  by (cases cs) (simp_all add: digits_1_2_def numeral_2_eq_2)

lemma digits_1_2_sound:
  assumes "g \<in> set (digits_1_2 s)"
  shows "g \<noteq> [] \<and> (\<forall>c \<in> set g. is_digit c) \<and> take (length g) s = g"
proof (cases s)
  case Nil
  with assms show ?thesis by (simp add: digits_1_2_def)
next
  case (Cons d r)
  with assms show ?thesis by (cases r) (auto simp: digits_1_2_def split: if_splits)
qed

lemma py_int_digits: "g \<noteq> [] \<Longrightarrow> \<forall>c \<in> set g. is_digit c \<Longrightarrow> py_int g = Inr (digits_val g)"
  by (simp add: py_int_def)

lemma season_of_folder_spec: "season_of_folder s = Inr (spec_first_digit_run s)"
proof (induction s)
  case Nil
  show ?case by (simp add: season_of_folder_def spec_first_digit_run_def)
next
  case (Cons c cs)
  show ?case
  proof (cases "is_digit c")
    case True
    then obtain rest where d: "digits_1_2 (c # cs) = takeWhile is_digit (take 2 (c # cs)) # rest"
      using digits_1_2_digit by blast
    let ?g = "takeWhile is_digit (take 2 (c # cs))"
    have "?g \<in> set (digits_1_2 (c # cs))" using d by simp
    then have "?g \<noteq> []" "\<forall>x \<in> set ?g. is_digit x" using digits_1_2_sound by blast+
    then have "py_int ?g = Inr (digits_val ?g)" by (rule py_int_digits)
    then show ?thesis using True d
      by (simp add: season_of_folder_def spec_first_digit_run_def)
  next
    case False
    then show ?thesis using Cons digits_1_2_nondigit[OF False, of cs]
      by (simp add: season_of_folder_def spec_first_digit_run_def)
  qed
qed

lemma index_from_first:
  "x \<in> set xs \<Longrightarrow> \<exists>i. index_from k xs x = Inr (k + i) \<and> i < length xs \<and> xs ! i = x \<and> (\<forall>j<i. xs ! j \<noteq> x)"
proof (induction xs arbitrary: k)
  case Nil
  then show ?case by simp
next
  case (Cons y ys)
  show ?case
  proof (cases "y = x")
    case True
    then show ?thesis by (intro exI[of _ 0]) simp
  next
    case False
    with Cons.prems have "x \<in> set ys" by simp
    from Cons.IH[OF this, of "Suc k"] obtain i where
      i: "index_from (Suc k) ys x = Inr (Suc k + i)" "i < length ys" "ys ! i = x" "\<forall>j<i. ys ! j \<noteq> x"
      by blast
    show ?thesis
    proof (intro exI[of _ "Suc i"] conjI allI impI)
      show "index_from k (y # ys) x = Inr (k + Suc i)" using False i(1) by simp
      show "Suc i < length (y # ys)" using i(2) by simp
      show "(y # ys) ! Suc i = x" using i(3) by simp
      fix j assume "j < Suc i"
      then show "(y # ys) ! j \<noteq> x" using False i(4) by (cases j) auto
    qed
  qed
qed

lemma py_nth_nonneg: "i < length xs \<Longrightarrow> py_nth xs (int i) = Inr (xs ! i)"
  by (simp add: py_nth_def)

lemma py_nth_plus: "i + k < length xs \<Longrightarrow> py_nth xs (int i + int k) = Inr (xs ! (i + k))"
  using py_nth_nonneg[of "i + k" xs] by simp

lemma py_nth_neg: "0 < k \<Longrightarrow> k \<le> length xs \<Longrightarrow> py_nth xs (- int k) = Inr (xs ! (length xs - k))"
  by (simp add: py_nth_def nat_diff_distrib' of_nat_diff)

lemma target_parts_nonempty: "x \<in> set (target_parts t) \<Longrightarrow> x \<noteq> []"
  by (simp add: target_parts_def)


section \<open>Name sanitizing\<close>

lemma set_lstrip_with: "set (lstrip_with P s) \<subseteq> set s"
  unfolding lstrip_with_def using set_dropWhileD by fastforce

lemma set_rstrip_with: "set (rstrip_with P s) \<subseteq> set s"
  unfolding rstrip_with_def using set_dropWhileD by fastforce

lemma set_py_strip: "set (py_strip s) \<subseteq> set s"
  unfolding py_strip_def using set_lstrip_with set_rstrip_with by blast

lemma set_py_rstrip_chars: "set (py_rstrip_chars cs s) \<subseteq> set s"
  unfolding py_rstrip_chars_def by (rule set_rstrip_with)

lemma sanitize_name_no_reserved: "c \<in> set (sanitize_name name) \<Longrightarrow> c \<notin> set reserved_chars"
proof (cases "name = []")
  case True
  assume "c \<in> set (sanitize_name name)"
  with True show ?thesis by (auto simp: sanitize_name_def reserved_chars_def)
next
  case False
  assume "c \<in> set (sanitize_name name)"
  with False have "c \<in> set (filter (\<lambda>c. c \<notin> set reserved_chars) name)"
    using set_py_strip set_py_rstrip_chars by (fastforce simp: sanitize_name_def Let_def)
  then show ?thesis by simp
qed

lemma sanitize_name_no_slash: "CHR ''/'' \<notin> set (sanitize_name name)"
  using sanitize_name_no_reserved[of "CHR ''/''" name] by (auto simp: reserved_chars_def)

lemma rstrip_with_last: "rstrip_with P s \<noteq> [] \<Longrightarrow> \<not> P (last (rstrip_with P s))"
proof -
  assume ne: "rstrip_with P s \<noteq> []"
  then have "dropWhile P (rev s) \<noteq> []" by (simp add: rstrip_with_def)
  then have "\<not> P (hd (dropWhile P (rev s)))" by (rule hd_dropWhile)
  then show ?thesis using ne by (simp add: rstrip_with_def last_rev)
qed

lemma sanitize_name_no_trailing_blank:
  "sanitize_name name \<noteq> [] \<Longrightarrow> \<not> py_isspace (last (sanitize_name name))"
proof (cases "name = []")
  case True
  then show ?thesis by (simp add: sanitize_name_def py_isspace_def)
next
  case False
  assume "sanitize_name name \<noteq> []"
  with False show ?thesis
    using rstrip_with_last[of py_isspace]
    by (simp add: sanitize_name_def Let_def py_strip_def)
qed

text \<open>
  The trailing dots are cut before the last \<open>strip()\<close>, so a dot that stands before a
  trailing tab survives.
\<close>

lemma sanitize_name_keeps_a_dot:
  "sanitize_name [CHR ''a'', CHR ''.'', CHR 0x09, CHR ''.''] = ''a.''"
  by code_simp

text \<open>
  Claim C4 asks for the fallback \<open>"unnamed"\<close> whenever removing the reserved characters
  and trimming leaves nothing. \<open>sanitize_name\<close> tests for the empty name before it
  removes anything: for the name \<open>???\<close>, made of reserved characters only, it
  returns the empty string and not the fallback.
\<close>

theorem sanitize_name_all_reserved:
  "sanitize_name ''???'' = [] \<and> sanitize_name ''???'' \<noteq> ''unnamed''"
  by code_simp

section \<open>Identity inference from a target path\<close>

lemma infer_target_example:
  "infer_show_and_season_from_target
     ''/media/tv/Show Name/Season 01/Show Name - S01E01.strm'' =
       Inr (Some ''Show Name'', Some 1)"
  by code_simp

text \<open>
  Claim C6. The segments of a target path are \<open>target_parts\<close>. When one of them is
  \<open>tv\<close> up to letter case, the first such segment, at position \<open>idx\<close>, decides the
  result: the show is the segment after it and the season is the first 1-2 digit run of
  the segment after that, each \<open>None\<close> when the path ends before it (or when the
  folder has no digit). When no segment is \<open>tv\<close> and there are at least three
  segments, the show is the third segment from the end and the season is the digit run
  of the second from the end. The path of the specification's example yields
  \<open>("Show Name", 1)\<close>.
\<close>

theorem infer_target_segments:
  fixes target :: string
  defines "ps \<equiv> target_parts target"
  shows "(''tv'' \<in> set (map py_lower ps) \<longrightarrow>
            (\<exists>idx < length ps. py_lower (ps ! idx) = ''tv'' \<and> (\<forall>j < idx. py_lower (ps ! j) \<noteq> ''tv'') \<and>
               infer_show_and_season_from_target target =
                 Inr (nth_opt ps (idx + 1),
                      case nth_opt ps (idx + 2) of None \<Rightarrow> None
                      | Some folder \<Rightarrow> spec_first_digit_run folder)))
       \<and> (''tv'' \<notin> set (map py_lower ps) \<and> 3 \<le> length ps \<longrightarrow>
            infer_show_and_season_from_target target =
              Inr (Some (ps ! (length ps - 3)), spec_first_digit_run (ps ! (length ps - 2))))
       \<and> infer_show_and_season_from_target
            ''/media/tv/Show Name/Season 01/Show Name - S01E01.strm'' =
              Inr (Some ''Show Name'', Some 1)"
proof (intro conjI impI)
  assume tv: "''tv'' \<in> set (map py_lower ps)"
  then have ne: "target \<noteq> []" by (auto simp: ps_def target_parts_def Path_def parts_def)
  from index_from_first[OF tv, of 0] obtain idx where
    idx: "py_index (map py_lower ps) ''tv'' = Inr idx" "idx < length ps"
         "map py_lower ps ! idx = ''tv''" "\<forall>j<idx. map py_lower ps ! j \<noteq> ''tv''"
    by (auto simp: py_index_def)
  have show_eq: "(if length ps > idx + 1 then bind (py_nth ps (int idx + 1)) (\<lambda>x. Inr (Some x)) else Inr None)
        = Inr (nth_opt ps (idx + 1))"
    using py_nth_plus[of idx 1 ps] by (simp add: nth_opt_def)
  have folder_eq: "(if length ps > idx + 2 then bind (py_nth ps (int idx + 2)) (\<lambda>x. Inr (Some x)) else Inr None)
        = Inr (nth_opt ps (idx + 2))"
    using py_nth_plus[of idx 2 ps] by (simp add: nth_opt_def)
  have season_eq: "(if truthy (nth_opt ps (idx + 2)) then season_of_folder (the (nth_opt ps (idx + 2))) else Inr None)
        = Inr (case nth_opt ps (idx + 2) of None \<Rightarrow> None | Some folder \<Rightarrow> spec_first_digit_run folder)"
  proof (cases "idx + 2 < length ps")
    case True
    then have "ps ! (idx + 2) \<in> set ps" by simp
    then have "ps ! (idx + 2) \<noteq> []" using target_parts_nonempty ps_def by blast
    then show ?thesis using True by (simp add: nth_opt_def season_of_folder_spec)
  next
    case False
    then show ?thesis by (simp add: nth_opt_def)
  qed
  have "infer_target_body target =
      Inr (nth_opt ps (idx + 1), case nth_opt ps (idx + 2) of None \<Rightarrow> None | Some folder \<Rightarrow> spec_first_digit_run folder)"
    apply (simp only: infer_target_body_def Let_def ps_def[symmetric])
    apply (simp only: show_eq folder_eq tv idx(1) if_True bind_Inr)
    apply (simp only: season_eq bind_Inr)
    done
  then have "infer_show_and_season_from_target target =
      Inr (nth_opt ps (idx + 1), case nth_opt ps (idx + 2) of None \<Rightarrow> None | Some folder \<Rightarrow> spec_first_digit_run folder)"
    using ne by (simp add: infer_show_and_season_from_target_def try_except_def)
  moreover have "py_lower (ps ! idx) = ''tv''" "\<forall>j < idx. py_lower (ps ! j) \<noteq> ''tv''"
    using idx by auto
  ultimately show "\<exists>idx < length ps. py_lower (ps ! idx) = ''tv'' \<and> (\<forall>j < idx. py_lower (ps ! j) \<noteq> ''tv'') \<and>
               infer_show_and_season_from_target target =
                 Inr (nth_opt ps (idx + 1),
                      case nth_opt ps (idx + 2) of None \<Rightarrow> None
                      | Some folder \<Rightarrow> spec_first_digit_run folder)"
    using idx(2) by blast
next
  assume a: "''tv'' \<notin> set (map py_lower ps) \<and> 3 \<le> length ps"
  then have ne: "target \<noteq> []" by (auto simp: ps_def target_parts_def Path_def parts_def)
  have n3: "py_nth ps (- 3) = Inr (ps ! (length ps - 3))"
    using py_nth_neg[of 3 ps] a by simp
  have n2: "py_nth ps (- 2) = Inr (ps ! (length ps - 2))"
    using py_nth_neg[of 2 ps] a by simp
  have "infer_target_body target =
      Inr (Some (ps ! (length ps - 3)), spec_first_digit_run (ps ! (length ps - 2)))"
    unfolding infer_target_body_def Let_def ps_def[symmetric]
    using a by (simp add: n3 n2 season_of_folder_spec)
  then show "infer_show_and_season_from_target target =
              Inr (Some (ps ! (length ps - 3)), spec_first_digit_run (ps ! (length ps - 2)))"
    using ne by (simp add: infer_show_and_season_from_target_def try_except_def)
next
  show "infer_show_and_season_from_target
          ''/media/tv/Show Name/Season 01/Show Name - S01E01.strm'' =
            Inr (Some ''Show Name'', Some 1)"
    by (rule infer_target_example)
qed

theorem infer_target_segments_witness:
  "''tv'' \<in> set (map py_lower (target_parts ''/media/TV/A/Season 02/a.strm''))
   \<and> infer_show_and_season_from_target ''/media/TV/A/Season 02/a.strm'' = Inr (Some ''A'', Some 2)
   \<and> ''tv'' \<notin> set (map py_lower (target_parts ''/srv/B/Series 3/b.strm''))
   \<and> 3 \<le> length (target_parts ''/srv/B/Series 3/b.strm'')
   \<and> infer_show_and_season_from_target ''/srv/B/Series 3/b.strm'' = Inr (Some ''B'', Some 3)"
proof -
  let ?t = "''/media/TV/A/Season 02/a.strm''"
  let ?u = "''/srv/B/Series 3/b.strm''"
  have ps: "target_parts ?t = [''media'', ''TV'', ''A'', ''Season 02'', ''a.strm'']"
    by code_simp
  have tv: "''tv'' \<in> set (map py_lower (target_parts ?t))"
    by code_simp
  have lows: "py_lower ''media'' \<noteq> ''tv''" "py_lower ''TV'' = ''tv''"
    by code_simp+
  have run2: "spec_first_digit_run ''Season 02'' = Some 2"
    by code_simp
  from infer_target_segments[of ?t, THEN conjunct1, rule_format, OF tv]
  obtain idx where idx: "idx < length (target_parts ?t)" "py_lower (target_parts ?t ! idx) = ''tv''"
      "\<forall>j < idx. py_lower (target_parts ?t ! j) \<noteq> ''tv''"
    and res: "infer_show_and_season_from_target ?t =
       Inr (nth_opt (target_parts ?t) (idx + 1),
            case nth_opt (target_parts ?t) (idx + 2) of
              None \<Rightarrow> None | Some folder \<Rightarrow> spec_first_digit_run folder)"
    by blast
  have "idx = 1"
  proof (rule ccontr)
    assume n: "idx \<noteq> 1"
    show False
    proof (cases "idx = 0")
      case True
      with idx(2) lows(1) show False unfolding ps by simp
    next
      case False
      with n have "1 < idx" by arith
      with idx(3) have "py_lower (target_parts ?t ! 1) \<noteq> ''tv''" by blast
      with lows(2) show False unfolding ps by simp
    qed
  qed
  with res have a: "infer_show_and_season_from_target ?t = Inr (Some ''A'', Some 2)"
    unfolding ps by (simp add: nth_opt_def run2)
  have ps2: "target_parts ?u = [''srv'', ''B'', ''Series 3'', ''b.strm'']"
    by code_simp
  have notv: "''tv'' \<notin> set (map py_lower (target_parts ?u))"
    by code_simp
  have run3: "spec_first_digit_run ''Series 3'' = Some 3"
    by code_simp
  have len: "3 \<le> length (target_parts ?u)"
    unfolding ps2 by simp
  from infer_target_segments[of ?u, THEN conjunct2, THEN conjunct1, rule_format, OF conjI, OF notv len]
  have b: "infer_show_and_season_from_target ?u = Inr (Some ''B'', Some 3)"
    unfolding ps2 by (simp add: run3)
  show ?thesis
    by (intro conjI tv a notv len b)
qed

section \<open>The regular expressions\<close>

lemma first_some_Some: "first_some f xs = Some y \<Longrightarrow> \<exists>x \<in> set xs. f x = Some y"
proof -
  assume a: "first_some f xs = Some y"
  then have "y \<in> set (List.map_filter f xs)"
    by (auto simp: first_some_def split: list.splits)
  then show ?thesis by (auto simp: List.map_filter_def)
qed

lemma first_some_None: "first_some f xs = None \<Longrightarrow> x \<in> set xs \<Longrightarrow> f x = None"
proof -
  assume a: "first_some f xs = None" and x: "x \<in> set xs"
  from a have "List.map_filter f xs = []" by (auto simp: first_some_def split: list.splits)
  with x show ?thesis by (auto simp: List.map_filter_def filter_empty_conv)
qed

lemma digits_1_2_run: "g \<in> set (digits_1_2 s) \<Longrightarrow> digit_run g \<and> (\<exists>r. s = g @ r)"
proof -
  assume g: "g \<in> set (digits_1_2 s)"
  show ?thesis
  proof (cases s)
    case Nil
    with g show ?thesis by (simp add: digits_1_2_def)
  next
    case (Cons d r)
    with g show ?thesis
      by (cases r) (auto simp: digits_1_2_def digit_run_def split: if_splits)
  qed
qed

lemma digits_1_2_empty_iff: "digits_1_2 s = [] \<longleftrightarrow> (s = [] \<or> \<not> is_digit (hd s))"
proof (cases s)
  case Nil
  then show ?thesis by (simp add: digits_1_2_def)
next
  case (Cons d r)
  then show ?thesis by (cases r) (auto simp: digits_1_2_def)
qed

lemma digit_run_int: "digit_run g \<Longrightarrow> py_int g = Inr (digits_val g)"
  by (simp add: digit_run_def py_int_def list_all_iff)

lemma letter_not_digit: "c \<in> set ''SsEe'' \<Longrightarrow> \<not> is_digit c"
  by (auto simp: is_digit_def)

text \<open>What a match of the episode marker at the front of a string looks like.\<close>

lemma match_SxEx_sound:
  assumes "match_SxEx s = Some (g1, g2)"
  shows "\<exists>c e m r. g1 = c # g2 @ e # m \<and> s = g1 @ r \<and> c \<in> set ''Ss'' \<and> e \<in> set ''Ee''
           \<and> digit_run g2 \<and> digit_run m"
proof (cases s)
  case Nil
  with assms show ?thesis by (simp add: match_SxEx_def)
next
  case (Cons c r)
  with assms have c: "c \<in> set ''Ss''"
    by (auto simp: match_SxEx_def split: if_splits)
  let ?f = "\<lambda>n. (case drop (length n) r of [] \<Rightarrow> None
              | e # r' \<Rightarrow> if e \<in> set ''Ee'' then
                  (case digits_1_2 r' of [] \<Rightarrow> None | m # _ \<Rightarrow> Some (c # n @ e # m, n))
                else None)"
  from assms Cons c have "first_some ?f (digits_1_2 r) = Some (g1, g2)"
    by (simp add: match_SxEx_def)
  from first_some_Some[OF this] obtain n where n: "n \<in> set (digits_1_2 r)" and fn: "?f n = Some (g1, g2)"
    by blast
  from digits_1_2_run[OF n] obtain r1 where rn: "digit_run n" "r = n @ r1" by blast
  have dr: "drop (length n) r = r1" using rn(2) by simp
  from fn have f1: "(case r1 of [] \<Rightarrow> None
              | e # r' \<Rightarrow> if e \<in> set ''Ee'' then
                  (case digits_1_2 r' of [] \<Rightarrow> None | m # _ \<Rightarrow> Some (c # n @ e # m, n))
                else None) = Some (g1, g2)"
    unfolding dr .
  then obtain e r' where r1: "r1 = e # r'"
    by (cases r1) simp_all
  from f1 r1 have e: "e \<in> set ''Ee''"
    by (simp split: if_splits)
  from f1 r1 e have f2: "(case digits_1_2 r' of [] \<Rightarrow> None | m # _ \<Rightarrow> Some (c # n @ e # m, n)) = Some (g1, g2)"
    by (simp split: if_splits)
  then obtain m ms where m: "digits_1_2 r' = m # ms"
    by (cases "digits_1_2 r'") simp_all
  from f2 m have g: "g1 = c # n @ e # m" "g2 = n"
    by auto
  from m have "m \<in> set (digits_1_2 r')" by simp
  from digits_1_2_run[OF this] obtain r2 where rm: "digit_run m" "r' = m @ r2" by blast
  show ?thesis
    using Cons c e g rn rm r1 by (intro exI[of _ c] exI[of _ e] exI[of _ m] exI[of _ r2]) simp
qed

lemma match_SxEx_complete:
  assumes "c \<in> set ''Ss''" "e \<in> set ''Ee''" "digit_run n" "digit_run m"
  shows "match_SxEx (c # n @ e # m @ r) \<noteq> None"
proof -
  from assms(4) obtain d ds where m: "m = d # ds" "is_digit d"
    by (cases m) (auto simp: digit_run_def)
  then have dm: "digits_1_2 (m @ r) \<noteq> []"
    by (simp add: digits_1_2_empty_iff)
  have ne: "\<not> is_digit e" using assms(2) by (auto simp: is_digit_def)
  let ?f = "\<lambda>n'. (case drop (length n') (n @ e # m @ r) of [] \<Rightarrow> None
              | e' # r' \<Rightarrow> if e' \<in> set ''Ee'' then
                  (case digits_1_2 r' of [] \<Rightarrow> None | m' # _ \<Rightarrow> Some (c # n' @ e' # m', n'))
                else None)"
  have fn: "?f n \<noteq> None" using assms(2) dm by (auto split: list.splits)
  have "n \<in> set (digits_1_2 (n @ e # m @ r))"
  proof -
    from assms(3) consider d1 where "n = [d1]" "is_digit d1" | d1 d2 where "n = [d1, d2]" "is_digit d1" "is_digit d2"
      by (cases n; cases "tl n") (auto simp: digit_run_def)
    then show ?thesis
    proof cases
      case 1
      then show ?thesis using ne by (simp add: digits_1_2_def)
    next
      case 2
      then show ?thesis by (simp add: digits_1_2_def)
    qed
  qed
  with fn have "first_some ?f (digits_1_2 (n @ e # m @ r)) \<noteq> None"
    using first_some_None by fastforce
  then show ?thesis using assms(1) by (simp add: match_SxEx_def)
qed

lemma match_SxEx_append: "match_SxEx s \<noteq> None \<Longrightarrow> match_SxEx (s @ t) \<noteq> None"
proof -
  assume "match_SxEx s \<noteq> None"
  then obtain g1 g2 where "match_SxEx s = Some (g1, g2)" by auto
  from match_SxEx_sound[OF this] obtain c e m r where
    *: "g1 = c # g2 @ e # m" "s = g1 @ r" "c \<in> set ''Ss''" "e \<in> set ''Ee''" "digit_run g2" "digit_run m"
    by blast
  then have "s @ t = c # g2 @ e # m @ (r @ t)" by simp
  then show ?thesis using match_SxEx_complete[OF *(3) *(4) *(5) *(6), of "r @ t"] by simp
qed

lemma optional_sep_sound:
  "(sep, r2) \<in> set (optional_sep r) \<Longrightarrow> r = sep @ r2 \<and> (sep = [] \<or> (\<exists>c. sep = [c] \<and> c \<in> set '' ._-''))"
  by (cases r) (auto simp: optional_sep_def split: if_splits)

lemma optional_sep_empty: "([], r) \<in> set (optional_sep r)"
  by (cases r) (auto simp: optional_sep_def)

lemma optional_sep_one: "c \<in> set '' ._-'' \<Longrightarrow> ([c], r) \<in> set (optional_sep (c # r))"
  by (simp add: optional_sep_def)

lemma season_tail_Some:
  "(case digits_1_2 r2 of [] \<Rightarrow> None | n # _ \<Rightarrow> Some (h @ sep @ n, n)) = Some (g0, g1)
     \<Longrightarrow> g1 \<in> set (digits_1_2 r2) \<and> g0 = h @ sep @ g1"
  by (cases "digits_1_2 r2") simp_all

lemma season_tail_not_None:
  "digits_1_2 r2 \<noteq> [] \<Longrightarrow> (case digits_1_2 r2 of [] \<Rightarrow> None | n # _ \<Rightarrow> Some (h @ sep @ n, n)) \<noteq> None"
  by (cases "digits_1_2 r2") simp_all

lemma match_season_intro:
  assumes "length s \<ge> 6" "py_lower (take 6 s) = ''season''"
    "(sep, r2) \<in> set (optional_sep (drop 6 s))" "digits_1_2 r2 \<noteq> []"
  shows "match_season s \<noteq> None"
proof -
  let ?f = "\<lambda>(sep, r2). (case digits_1_2 r2 of [] \<Rightarrow> None | n # _ \<Rightarrow> Some (take 6 s @ sep @ n, n))"
  have "?f (sep, r2) \<noteq> None" using season_tail_not_None[OF assms(4)] by simp
  with assms(3) have "first_some ?f (optional_sep (drop 6 s)) \<noteq> None"
    using first_some_None by fastforce
  then show ?thesis unfolding match_season_def using assms(1,2) by simp
qed

lemma match_season_elim:
  assumes "match_season s = Some (g0, g1)"
  shows "length s \<ge> 6 \<and> py_lower (take 6 s) = ''season'' \<and>
         (\<exists>sep r2. (sep, r2) \<in> set (optional_sep (drop 6 s)) \<and> g1 \<in> set (digits_1_2 r2)
            \<and> g0 = take 6 s @ sep @ g1)"
proof -
  let ?f = "\<lambda>(sep, r2). (case digits_1_2 r2 of [] \<Rightarrow> None | n # _ \<Rightarrow> Some (take 6 s @ sep @ n, n))"
  from assms have len: "length s \<ge> 6" "py_lower (take 6 s) = ''season''"
    unfolding match_season_def by (simp_all split: if_splits)
  with assms have "first_some ?f (optional_sep (drop 6 s)) = Some (g0, g1)"
    unfolding match_season_def by simp
  from first_some_Some[OF this] obtain x where x: "x \<in> set (optional_sep (drop 6 s))" "?f x = Some (g0, g1)"
    by blast
  obtain sep r2 where xe: "x = (sep, r2)" by (cases x)
  from x(2) have "(case digits_1_2 r2 of [] \<Rightarrow> None | n # _ \<Rightarrow> Some (take 6 s @ sep @ n, n)) = Some (g0, g1)"
    unfolding xe by simp
  from season_tail_Some[OF this] x(1) xe len show ?thesis by blast
qed

lemma match_season_sound:
  assumes "match_season s = Some (g0, g1)"
  shows "g0 \<noteq> [] \<and> digit_run g1 \<and> (\<exists>r. s = g0 @ r) \<and> match_season g0 \<noteq> None"
proof -
  from match_season_elim[OF assms] obtain sep r2 where
    len: "length s \<ge> 6" and low: "py_lower (take 6 s) = ''season''"
    and a: "(sep, r2) \<in> set (optional_sep (drop 6 s))" and n: "g1 \<in> set (digits_1_2 r2)"
    and g: "g0 = take 6 s @ sep @ g1"
    by blast
  from optional_sep_sound[OF a] have sr: "drop 6 s = sep @ r2"
    and sc: "sep = [] \<or> (\<exists>c. sep = [c] \<and> c \<in> set '' ._-'')" by blast+
  from digits_1_2_run[OF n] obtain r3 where rn: "digit_run g1" "r2 = g1 @ r3" by blast
  have "s = take 6 s @ drop 6 s" by simp
  then have split: "s = g0 @ r3" unfolding sr rn(2) g by simp
  have l6: "length (take 6 s) = 6" using len by simp
  have t6: "g0 \<noteq> []" using g l6 by auto
  have tk: "take 6 g0 = take 6 s" using g l6 by simp
  have dr: "drop 6 g0 = sep @ g1" using g l6 by simp
  from rn(1) obtain d ds where nd: "g1 = d # ds" "is_digit d"
    by (cases g1) (auto simp: digit_run_def)
  have dn: "digits_1_2 g1 \<noteq> []" using nd by (simp add: digits_1_2_empty_iff)
  have mem: "(sep, g1) \<in> set (optional_sep (drop 6 g0))"
  proof (cases "sep = []")
    case True
    then show ?thesis unfolding dr using optional_sep_empty[of g1] by simp
  next
    case False
    with sc obtain c where "sep = [c]" "c \<in> set '' ._-''" by blast
    then show ?thesis unfolding dr using optional_sep_one[of c g1] by simp
  qed
  have "length g0 \<ge> 6" using g l6 by simp
  from match_season_intro[OF this _ mem dn] tk low have "match_season g0 \<noteq> None" by simp
  with t6 rn(1) split show ?thesis by blast
qed

lemma match_season_append:
  assumes "match_season s \<noteq> None"
  shows "match_season (s @ t) \<noteq> None"
proof -
  from assms obtain g0 g1 where "match_season s = Some (g0, g1)" by auto
  from match_season_elim[OF this] obtain sep r2 where
    len: "length s \<ge> 6" and low: "py_lower (take 6 s) = ''season''"
    and a: "(sep, r2) \<in> set (optional_sep (drop 6 s))" and n: "g1 \<in> set (digits_1_2 r2)"
    by blast
  from optional_sep_sound[OF a] have sr: "drop 6 s = sep @ r2"
    and sc: "sep = [] \<or> (\<exists>c. sep = [c] \<and> c \<in> set '' ._-'')" by blast+
  from n have "digits_1_2 r2 \<noteq> []" by auto
  then have r2: "r2 \<noteq> []" "is_digit (hd r2)" by (auto simp: digits_1_2_empty_iff)
  then have d: "digits_1_2 (r2 @ t) \<noteq> []" by (cases r2) (auto simp: digits_1_2_empty_iff)
  have dr: "drop 6 (s @ t) = sep @ (r2 @ t)" using len sr by simp
  have mem: "(sep, r2 @ t) \<in> set (optional_sep (drop 6 (s @ t)))"
  proof (cases "sep = []")
    case True
    then show ?thesis unfolding dr using optional_sep_empty[of "r2 @ t"] by simp
  next
    case False
    with sc obtain c where "sep = [c]" "c \<in> set '' ._-''" by blast
    then show ?thesis unfolding dr using optional_sep_one[of c "r2 @ t"] by simp
  qed
  have l: "length (s @ t) \<ge> 6" using len by simp
  have tk: "py_lower (take 6 (s @ t)) = ''season''" using len low by simp
  from match_season_intro[OF l tk mem d] show ?thesis .
qed

lemma match_SxEx_self:
  assumes "match_SxEx s = Some (g1, g2)"
  shows "g1 \<noteq> [] \<and> digit_run g2 \<and> (\<exists>r. s = g1 @ r) \<and> match_SxEx g1 \<noteq> None"
proof -
  from match_SxEx_sound[OF assms] obtain c e m r where
    *: "g1 = c # g2 @ e # m" "s = g1 @ r" "c \<in> set ''Ss''" "e \<in> set ''Ee''" "digit_run g2" "digit_run m"
    by blast
  from match_SxEx_complete[OF *(3) *(4) *(5) *(6), of "[]"] *(1) have "match_SxEx g1 \<noteq> None" by simp
  with * show ?thesis by auto
qed

text \<open>The leftmost search, for any matcher whose match is a front part of the string.\<close>

lemma leftmost_search:
  fixes m :: "string \<Rightarrow> (string \<times> 'b) option" and srch :: "string \<Rightarrow> (string \<times> 'b) option"
  assumes nil: "srch [] = None"
    and cons: "\<And>c cs. srch (c # cs) = (case m (c # cs) of Some g \<Rightarrow> Some g | None \<Rightarrow> srch cs)"
    and front: "\<And>s g. m s = Some g \<Longrightarrow> fst g \<noteq> [] \<and> (\<exists>r. s = fst g @ r) \<and> m (fst g) \<noteq> None"
    and mono: "\<And>s t. m s \<noteq> None \<Longrightarrow> m (s @ t) \<noteq> None"
  shows "srch s = Some g \<Longrightarrow>
     \<exists>pre post. s = pre @ fst g @ post \<and> m (fst g @ post) = Some g
        \<and> (\<forall>i < length pre. m (drop i s) = None) \<and> before_first (fst g) s = pre"
proof (induction s)
  case Nil
  then show ?case using nil by simp
next
  case (Cons c cs)
  show ?case
  proof (cases "m (c # cs)")
    case (Some g')
    with Cons.prems cons have gg: "g' = g" by simp
    from front[OF Some] gg obtain r where r: "c # cs = fst g @ r" "fst g \<noteq> []" by auto
    then have "startswith (c # cs) (fst g)" by (simp add: startswith_def)
    then have "before_first (fst g) (c # cs) = []" by simp
    then show ?thesis using r Some gg
      by (intro exI[of _ "[]"] exI[of _ r]) simp
  next
    case None
    with Cons.prems cons have "srch cs = Some g" by simp
    from Cons.IH[OF this] obtain pre post where
      ih: "cs = pre @ fst g @ post" "m (fst g @ post) = Some g"
          "\<forall>i < length pre. m (drop i cs) = None" "before_first (fst g) cs = pre"
      by blast
    have nostart: "\<not> startswith (c # cs) (fst g)"
    proof
      assume "startswith (c # cs) (fst g)"
      then obtain t where t: "c # cs = fst g @ t"
        by (metis append_take_drop_id startswith_def)
      from front[OF ih(2)] have "m (fst g) \<noteq> None" by simp
      from mono[OF this, of t] t None show False by simp
    qed
    have all: "\<forall>i < length (c # pre). m (drop i (c # cs)) = None"
    proof (intro allI impI)
      fix i assume i: "i < length (c # pre)"
      show "m (drop i (c # cs)) = None"
      proof (cases i)
        case 0
        then show ?thesis using None by simp
      next
        case (Suc j)
        then show ?thesis using i ih(3) by simp
      qed
    qed
    show ?thesis
      using ih(1) ih(2) all nostart ih(4)
      by (intro exI[of _ "c # pre"] exI[of _ post]) simp
  qed
qed

lemma search_none_everywhere:
  fixes m :: "string \<Rightarrow> (string \<times> 'b) option"
  assumes nil: "srch [] = None"
    and cons: "\<And>c cs. srch (c # cs) = (case m (c # cs) of Some g \<Rightarrow> Some g | None \<Rightarrow> srch cs)"
  shows "srch s = None \<Longrightarrow> i < length s \<Longrightarrow> m (drop i s) = None"
proof (induction s arbitrary: i)
  case Nil
  then show ?case by simp
next
  case (Cons c cs)
  from Cons.prems(1) cons have a: "m (c # cs) = None" "srch cs = None"
    by (auto split: option.splits)
  show ?case
  proof (cases i)
    case 0
    then show ?thesis using a by simp
  next
    case (Suc j)
    then show ?thesis using Cons.IH[OF a(2), of j] Cons.prems(2) by simp
  qed
qed

lemma search_substring:
  fixes m :: "string \<Rightarrow> (string \<times> 'b) option"
  assumes nil: "srch [] = None"
    and cons: "\<And>c cs. srch (c # cs) = (case m (c # cs) of Some g \<Rightarrow> Some g | None \<Rightarrow> srch cs)"
    and front: "\<And>s g. m s = Some g \<Longrightarrow> fst g \<noteq> [] \<and> (\<exists>r. s = fst g @ r) \<and> m (fst g) \<noteq> None"
    and mono: "\<And>s t. m s \<noteq> None \<Longrightarrow> m (s @ t) \<noteq> None"
    and none: "srch (a @ b @ c) = None"
  shows "srch b = None"
proof (rule ccontr)
  assume "srch b \<noteq> None"
  then obtain g where g: "srch b = Some g" by auto
  from leftmost_search[of srch m, OF nil cons front mono g] obtain pre post where
    p: "b = pre @ fst g @ post" "m (fst g @ post) = Some g"
    by blast
  have ne: "fst g \<noteq> []" using front[OF p(2)] by simp
  have "m ((fst g @ post) @ c) \<noteq> None" using mono[of "fst g @ post" c] p(2) by simp
  moreover have "drop (length a + length pre) (a @ b @ c) = (fst g @ post) @ c"
    using p(1) by simp
  moreover have "length a + length pre < length (a @ b @ c)" using p(1) ne by simp
  ultimately show False
    using search_none_everywhere[of srch m, OF nil cons none, of "length a + length pre"] by simp
qed

section \<open>Identity inference from a filename\<close>

lemma split_on_nonempty: "split_on c s \<noteq> []"
  by (induction s) (auto simp: Let_def)

lemma split_on_hd_front: "\<exists>b. s = hd (split_on c s) @ b"
proof (induction s)
  case Nil
  show ?case by simp
next
  case (Cons x xs)
  then obtain b where "xs = hd (split_on c xs) @ b" by blast
  then show ?case by (auto simp: Let_def)
qed

lemma split_on_part: "x \<in> set (split_on c s) \<Longrightarrow> \<exists>a b. s = a @ x @ b"
proof (induction s arbitrary: x)
  case Nil
  then show ?case by simp
next
  case (Cons y ys)
  show ?case
  proof (cases "y = c")
    case True
    with Cons.prems have "x = [] \<or> x \<in> set (split_on c ys)" by simp
    then show ?thesis
    proof
      assume "x = []"
      then show ?thesis by (intro exI[of _ "[]"] exI[of _ "y # ys"]) simp
    next
      assume "x \<in> set (split_on c ys)"
      from Cons.IH[OF this] obtain a b where "ys = a @ x @ b" by blast
      then show ?thesis by (intro exI[of _ "y # a"] exI[of _ b]) simp
    qed
  next
    case False
    with Cons.prems have "x = y # hd (split_on c ys) \<or> x \<in> set (tl (split_on c ys))"
      by (simp add: Let_def)
    then show ?thesis
    proof
      assume x: "x = y # hd (split_on c ys)"
      from split_on_hd_front[of ys c] obtain b where "ys = hd (split_on c ys) @ b" by blast
      with x show ?thesis by (intro exI[of _ "[]"] exI[of _ b]) simp
    next
      assume "x \<in> set (tl (split_on c ys))"
      then have "x \<in> set (split_on c ys)" using split_on_nonempty[of c ys]
        by (metis list.set_sel(2))
      from Cons.IH[OF this] obtain a b where "ys = a @ x @ b" by blast
      then show ?thesis by (intro exI[of _ "y # a"] exI[of _ b]) simp
    qed
  qed
qed

lemma pname_Path_part: "\<exists>a b. s = a @ pname (Path s) @ b"
proof (cases "segs (Path s) = []")
  case True
  then have "s = [] @ pname (Path s) @ s" by (simp add: pname_def)
  then show ?thesis by blast
next
  case False
  then have "last (segs (Path s)) \<in> set (segs (Path s))" by simp
  then have "last (segs (Path s)) \<in> set (split_on CHR ''/'' (dropWhile (\<lambda>c. c = CHR ''/'') s))"
    by (simp add: Path_def Let_def)
  from split_on_part[OF this] obtain a b where
    "dropWhile (\<lambda>c. c = CHR ''/'') s = a @ last (segs (Path s)) @ b" by blast
  then have "s = (takeWhile (\<lambda>c. c = CHR ''/'') s @ a) @ last (segs (Path s)) @ b"
    by (metis append.assoc takeWhile_dropWhile_id)
  then show ?thesis using False unfolding pname_def by (simp only: if_False) blast
qed

lemma stem_of_name_front: "\<exists>b. name = stem_of_name name @ b"
proof -
  have "stem_of_name name = name \<or> (\<exists>i. stem_of_name name = take i name)"
    by (auto simp: stem_of_name_def split: option.splits)
  then show ?thesis by (metis append_Nil2 append_take_drop_id)
qed

lemma stem_Path_part: "\<exists>a b. s = a @ stem (Path s) @ b"
proof -
  from pname_Path_part[of s] obtain a b where ab: "s = a @ pname (Path s) @ b" by blast
  from stem_of_name_front[of "pname (Path s)"] obtain c where c: "pname (Path s) = stem (Path s) @ c"
    unfolding stem_def by blast
  have "s = a @ stem (Path s) @ (c @ b)" using ab c by (metis append.assoc)
  then show ?thesis by blast
qed

lemma match_SxEx_front:
  "match_SxEx s = Some g \<Longrightarrow> fst g \<noteq> [] \<and> (\<exists>r. s = fst g @ r) \<and> match_SxEx (fst g) \<noteq> None"
  using match_SxEx_self[of s "fst g" "snd g"] by simp

lemma match_season_front:
  "match_season s = Some g \<Longrightarrow> fst g \<noteq> [] \<and> (\<exists>r. s = fst g @ r) \<and> match_season (fst g) \<noteq> None"
  using match_season_sound[of s "fst g" "snd g"] by simp

lemma search_SxEx_leftmost:
  "search_SxEx s = Some g \<Longrightarrow>
     \<exists>pre post. s = pre @ fst g @ post \<and> match_SxEx (fst g @ post) = Some g
        \<and> (\<forall>i < length pre. match_SxEx (drop i s) = None) \<and> before_first (fst g) s = pre"
  by (rule leftmost_search[where srch=search_SxEx and m=match_SxEx])
     (simp_all add: match_SxEx_front match_SxEx_append)

lemma search_season_leftmost:
  "search_season s = Some g \<Longrightarrow>
     \<exists>pre post. s = pre @ fst g @ post \<and> match_season (fst g @ post) = Some g
        \<and> (\<forall>i < length pre. match_season (drop i s) = None) \<and> before_first (fst g) s = pre"
  by (rule leftmost_search[where srch=search_season and m=match_season])
     (simp_all add: match_season_front match_season_append)

lemma search_SxEx_substring: "search_SxEx (a @ b @ c) = None \<Longrightarrow> search_SxEx b = None"
  by (rule search_substring[where srch=search_SxEx and m=match_SxEx and a=a and c=c])
     (simp_all add: match_SxEx_front match_SxEx_append)

lemma search_season_substring: "search_season (a @ b @ c) = None \<Longrightarrow> search_season b = None"
  by (rule search_substring[where srch=search_season and m=match_season and a=a and c=c])
     (simp_all add: match_season_front match_season_append)

lemma strip_chars_dup: "py_strip_chars '' -._.'' h = py_strip_chars '' -._'' h"
proof -
  have "set '' -._.'' = set '' -._''" by auto
  then show ?thesis by (simp only: py_strip_chars_def)
qed

lemma infer_filename_marker:
  assumes "search_SxEx (stem (Path fname)) = Some (g1, g2)"
  shows "\<exists>pre post. stem (Path fname) = pre @ g1 @ post
           \<and> (\<forall>i < length pre. match_SxEx (drop i (stem (Path fname))) = None)
           \<and> infer_from_filename_for_season fname = Inr (spec_show_of pre, Some (digits_val g2))"
proof -
  let ?base = "stem (Path fname)"
  have ne: "fname \<noteq> []"
  proof
    assume "fname = []"
    then have "?base = []" by (simp add: stem_def stem_of_name_def pname_def Path_def)
    with assms show False by simp
  qed
  from search_SxEx_leftmost[OF assms, unfolded fst_conv] obtain pre post where
    p: "?base = pre @ g1 @ post" "match_SxEx (g1 @ post) = Some (g1, g2)"
       "\<forall>i < length pre. match_SxEx (drop i ?base) = None" "before_first g1 ?base = pre"
    by blast
  from match_SxEx_self[OF p(2)] have g: "g1 \<noteq> []" "digit_run g2" by blast+
  have i: "py_int g2 = Inr (digits_val g2)" using g(2) by (rule digit_run_int)
  have h: "split_head ?base g1 = Inr pre" using g(1) p(4) by (simp add: split_head_def)
  have "infer_from_filename_for_season fname = Inr (spec_show_of pre, Some (digits_val g2))"
    unfolding infer_from_filename_for_season_def Let_def
    using ne assms by (simp add: i h spec_show_of_def strip_chars_dup Let_def)
  with p(1) p(3) show ?thesis by blast
qed

lemma infer_filename_season:
  assumes "search_SxEx (stem (Path fname)) = None" "search_season (stem (Path fname)) = Some (g0, g1)"
  shows "\<exists>pre post. stem (Path fname) = pre @ g0 @ post
           \<and> infer_from_filename_for_season fname =
               Inr (or_None (py_strip (replace_dots pre)), Some (digits_val g1))"
proof -
  let ?base = "stem (Path fname)"
  have ne: "fname \<noteq> []"
  proof
    assume "fname = []"
    then have "?base = []" by (simp add: stem_def stem_of_name_def pname_def Path_def)
    with assms show False by simp
  qed
  from search_season_leftmost[OF assms(2), unfolded fst_conv] obtain pre post where
    p: "?base = pre @ g0 @ post" "match_season (g0 @ post) = Some (g0, g1)"
       "before_first g0 ?base = pre"
    by blast
  from match_season_sound[OF p(2)] have g: "g0 \<noteq> []" "digit_run g1" by blast+
  have i: "py_int g1 = Inr (digits_val g1)" using g(2) by (rule digit_run_int)
  have h: "split_head ?base g0 = Inr pre" using g(1) p(3) by (simp add: split_head_def)
  have "infer_from_filename_for_season fname = Inr (or_None (py_strip (replace_dots pre)), Some (digits_val g1))"
    unfolding infer_from_filename_for_season_def Let_def
    using ne assms by (simp add: i h)
  with p(1) show ?thesis by blast
qed

lemma infer_filename_nothing:
  assumes "search_SxEx fname = None" "search_season fname = None"
  shows "infer_from_filename_for_season fname = Inr (None, None)"
proof -
  from stem_Path_part[of fname] obtain a b where ab: "fname = a @ stem (Path fname) @ b" by blast
  have 1: "search_SxEx (stem (Path fname)) = None"
    using search_SxEx_substring[of a "stem (Path fname)" b] assms(1) ab by simp
  have 2: "search_season (stem (Path fname)) = None"
    using search_season_substring[of a "stem (Path fname)" b] assms(2) ab by simp
  show ?thesis unfolding infer_from_filename_for_season_def Let_def using 1 2 by simp
qed

lemma infer_filename_total: "\<exists>r. infer_from_filename_for_season fname = Inr r"
proof (cases "search_SxEx (stem (Path fname))")
  case (Some g)
  then show ?thesis using infer_filename_marker[of fname "fst g" "snd g"] by auto
next
  case None
  show ?thesis
  proof (cases "search_season (stem (Path fname))")
    case (Some g)
    then show ?thesis using infer_filename_season[OF None, of "fst g" "snd g"] by auto
  next
    case N2: None
    show ?thesis unfolding infer_from_filename_for_season_def Let_def using None N2 by simp
  qed
qed

lemma search_SxEx_marker:
  assumes "search_SxEx s = Some (g1, g2)"
  shows "digit_run g2 \<and> (\<exists>c e m. g1 = c # g2 @ e # m \<and> c \<in> set ''Ss'' \<and> e \<in> set ''Ee'' \<and> digit_run m)"
proof -
  from search_SxEx_leftmost[OF assms, unfolded fst_conv] obtain post where
    "match_SxEx (g1 @ post) = Some (g1, g2)" by blast
  from match_SxEx_sound[OF this] show ?thesis by blast
qed

lemma infer_filename_examples:
  "infer_from_filename_for_season ''Show.Name.S02E05.mkv'' = Inr (Some ''Show Name'', Some 2)"
  "infer_from_filename_for_season ''Random.File.mkv'' = Inr (None, None)"
  by code_simp+

text \<open>
  Claim C7, as the specification states it, fails: the marker is looked for in the stem
  of the filename, and \<open>stem\<close> cuts the text after the last dot. In \<open>Show.S01E02\<close> the
  marker is that text, so nothing is inferred.
\<close>

theorem infer_from_filename_marker_counterexample:
  "search_SxEx ''Show.S01E02'' = Some (''S01E02'', ''01'')
   \<and> infer_from_filename_for_season ''Show.S01E02'' = Inr (None, None)"
  by code_simp

text \<open>
  Claim C7, amended. When the stem of the filename (its last path component without
  the last suffix) contains a marker \<open>S<1-2 digits>E<1-2 digits>\<close>, \<open>g1\<close> being the
  leftmost one and \<open>g2\<close> its season digits, the season is the number \<open>g2\<close> and the
  show is \<open>spec_show_of\<close> of the stem's text in front of the marker: separators
  trimmed, \<open>None\<close> when nothing is left, else dots turned into spaces and the blanks
  around dropped. A filename with neither such a marker nor a \<open>season\<close>+digits token
  yields \<open>(None, None)\<close>. The two examples of the specification hold.
\<close>

theorem infer_from_filename_stem_marker:
  "(search_SxEx (stem (Path fname)) = Some (g1, g2) \<longrightarrow>
      digit_run g2
      \<and> (\<exists>c e m. g1 = c # g2 @ e # m \<and> c \<in> set ''Ss'' \<and> e \<in> set ''Ee'' \<and> digit_run m)
      \<and> (\<exists>pre post. stem (Path fname) = pre @ g1 @ post
            \<and> (\<forall>i < length pre. match_SxEx (drop i (stem (Path fname))) = None)
            \<and> infer_from_filename_for_season fname =
                Inr (spec_show_of pre, Some (digits_val g2))))
   \<and> (search_SxEx fname = None \<and> search_season fname = None \<longrightarrow>
        infer_from_filename_for_season fname = Inr (None, None))
   \<and> infer_from_filename_for_season ''Show.Name.S02E05.mkv'' = Inr (Some ''Show Name'', Some 2)
   \<and> infer_from_filename_for_season ''Random.File.mkv'' = Inr (None, None)"
proof (intro conjI impI)
  assume a: "search_SxEx (stem (Path fname)) = Some (g1, g2)"
  from search_SxEx_marker[OF a] show "digit_run g2"
    and "\<exists>c e m. g1 = c # g2 @ e # m \<and> c \<in> set ''Ss'' \<and> e \<in> set ''Ee'' \<and> digit_run m"
    by blast+
  from infer_filename_marker[OF a]
  show "\<exists>pre post. stem (Path fname) = pre @ g1 @ post
            \<and> (\<forall>i < length pre. match_SxEx (drop i (stem (Path fname))) = None)
            \<and> infer_from_filename_for_season fname =
                Inr (spec_show_of pre, Some (digits_val g2))" .
next
  assume "search_SxEx fname = None \<and> search_season fname = None"
  then show "infer_from_filename_for_season fname = Inr (None, None)"
    using infer_filename_nothing by blast
next
  show "infer_from_filename_for_season ''Show.Name.S02E05.mkv'' = Inr (Some ''Show Name'', Some 2)"
    by (rule infer_filename_examples(1))
  show "infer_from_filename_for_season ''Random.File.mkv'' = Inr (None, None)"
    by (rule infer_filename_examples(2))
qed

theorem infer_from_filename_stem_marker_witness:
  "search_SxEx (stem (Path ''Show.Name.S02E05.mkv'')) = Some (''S02E05'', ''02'')
   \<and> (\<exists>pre. infer_from_filename_for_season ''Show.Name.S02E05.mkv'' =
          Inr (spec_show_of pre, Some 2))
   \<and> search_SxEx ''Random.File.mkv'' = None
   \<and> search_season ''Random.File.mkv'' = None
   \<and> infer_from_filename_for_season ''Random.File.mkv'' = Inr (None, None)"
proof -
  let ?f = "''Show.Name.S02E05.mkv''"
  let ?r = "''Random.File.mkv''"
  have h: "search_SxEx (stem (Path ?f)) = Some (''S02E05'', ''02'')"
    by code_simp
  have v: "digits_val ''02'' = 2"
    by code_simp
  from infer_from_filename_stem_marker[of ?f "''S02E05''" "''02''", THEN conjunct1, rule_format, OF h]
  obtain pre where "infer_from_filename_for_season ?f = Inr (spec_show_of pre, Some (digits_val ''02''))"
    by blast
  then have c: "\<exists>pre. infer_from_filename_for_season ?f = Inr (spec_show_of pre, Some 2)"
    unfolding v by blast
  have n1: "search_SxEx ?r = None"
    by code_simp
  have n2: "search_season ?r = None"
    by code_simp
  from infer_from_filename_stem_marker[of ?r, THEN conjunct2, THEN conjunct1, rule_format, OF conjI, OF n1 n2]
  have d: "infer_from_filename_for_season ?r = Inr (None, None)" .
  show ?thesis
    by (intro conjI h c n1 n2 d)
qed

section \<open>Totality of the inference functions\<close>

lemma infer_target_total: "\<exists>r. infer_show_and_season_from_target target = Inr r"
  by (cases "infer_target_body target")
     (simp_all add: infer_show_and_season_from_target_def try_except_def)

lemma name_from_url_total: "\<exists>n. name_from_url U url = Inr n"
  by (cases "urlparse U url") (simp_all add: name_from_url_def try_except_def Let_def)

lemma name_from_url_fallback: "urlparse U url = Inl e \<Longrightarrow> name_from_url U url = Inr ''unnamed''"
  by (simp add: name_from_url_def try_except_def)

text \<open>
  Claim C8. The two inference functions and \<open>name_from_url\<close> return a value on every
  string, whatever \<open>urlparse\<close> and \<open>unquote\<close> do: no exception leaves them. When
  \<open>urlparse\<close> raises, \<open>name_from_url\<close> returns \<open>"unnamed"\<close>.
\<close>

theorem inference_total:
  "(\<exists>r. infer_show_and_season_from_target target = Inr r)
   \<and> (\<exists>r. infer_from_filename_for_season fname = Inr r)
   \<and> (\<exists>n. name_from_url U url = Inr n)
   \<and> (\<forall>e. urlparse U url = Inl e \<longrightarrow> name_from_url U url = Inr ''unnamed'')"
  using infer_target_total infer_filename_total name_from_url_total name_from_url_fallback
  by blast

theorem inference_total_witness:
  "urlparse \<lparr>urlparse = (\<lambda>u. Inl (ValueError ''Invalid IPv6 URL'')), unquote = (\<lambda>s. s)\<rparr>
      ''http://[::1'' = Inl (ValueError ''Invalid IPv6 URL'')
   \<and> name_from_url \<lparr>urlparse = (\<lambda>u. Inl (ValueError ''Invalid IPv6 URL'')), unquote = (\<lambda>s. s)\<rparr>
      ''http://[::1'' = Inr ''unnamed''"
proof -
  let ?U = "\<lparr>urlparse = (\<lambda>u. Inl (ValueError ''Invalid IPv6 URL'')), unquote = (\<lambda>s. s)\<rparr>"
  have h: "urlparse ?U ''http://[::1'' = Inl (ValueError ''Invalid IPv6 URL'')"
    by simp
  from inference_total[of "[]" "[]" ?U "''http://[::1''",
      THEN conjunct2, THEN conjunct2, THEN conjunct2, rule_format, OF h]
  have "name_from_url ?U ''http://[::1'' = Inr ''unnamed''" .
  with h show ?thesis by (intro conjI)
qed

section \<open>Re-fetch jobs from a log\<close>

lemma group_entries_no_links:
  "\<forall>e \<in> set es. \<not> truthy (e_link e) \<Longrightarrow> group_entries es g = Inr g"
  by (induction es) simp_all

lemma movies_without_links_raises:
  assumes "logfile \<noteq> None" "\<forall>e \<in> set (parse_log_entries logfile). \<not> truthy (e_link e)"
  shows "\<exists>m. spawn_refresh_job_simple ''movies'' logfile = Inl (RuntimeError m)"
proof -
  have "filter (\<lambda>e. truthy (e_link e)) (parse_log_entries logfile) = []"
    using assms(2) by (simp add: filter_empty_conv)
  then show ?thesis using assms(1)
    by (simp add: spawn_refresh_job_simple_def Let_def)
qed

lemma tv_without_links_returns_nothing:
  assumes "logfile \<noteq> None" "parse_log_entries logfile \<noteq> []"
    "\<forall>e \<in> set (parse_log_entries logfile). \<not> truthy (e_link e)"
  shows "spawn_refresh_job_simple ''tv'' logfile = Inr []"
  using assms group_entries_no_links[OF assms(3), of "[]"]
  by (simp add: spawn_refresh_job_simple_def Let_def)

text \<open>
  Claim C3 asks for an error whenever no record of the log has a usable link. The
  \<open>movies\<close> branch raises (\<open>movies_without_links_raises\<close>); the \<open>tv\<close> branch has no such
  test: for a log whose only line is \<open>hello\<close> it returns the empty list of jobs.
\<close>

theorem spawn_refresh_tv_without_links:
  "spawn_refresh_job_simple ''tv'' (Some [''hello'']) = Inr []
   \<and> spawn_refresh_job_simple ''movies'' (Some [''hello'']) =
       Inl (RuntimeError ''no links found in movie log'')"
  by code_simp

lemma refetch_groups_example:
  "spawn_refresh_job_simple ''tv'' (Some
     [''t | link=L1 | target=/media/tv/A/Season 01/a.strm | rd_filename='',
      ''t | link=L2 | target=/media/tv/A/Season 01/b.strm | rd_filename='',
      ''t | link=L3 | target=/media/tv/B/Season 02/c.strm | rd_filename=''])
   = Inr [TvJob ''A'' 1 [''L1'', ''L2''], TvJob ''B'' 2 [''L3'']]"
  by code_simp

text \<open>
  Claim C2 keys a group by the inferred show and season, the season being \<open>1\<close> only
  when none is inferred. The default is applied with \<open>if not season\<close>, which is also
  true of the inferred season \<open>0\<close>: a record under \<open>Season 00\<close> is inferred as
  \<open>("A", 0)\<close> and grouped under \<open>("A", 1)\<close>, together with the records of
  \<open>Season 01\<close>.
\<close>

theorem refetch_group_season_zero:
  "infer_identity ''L0'' (Some ''/media/tv/A/Season 00/s.strm'') = Inr (Some ''A'', Some 0)
   \<and> spawn_refresh_job_simple ''tv'' (Some
        [''t | link=L0 | target=/media/tv/A/Season 00/s.strm | rd_filename='',
         ''t | link=L1 | target=/media/tv/A/Season 01/a.strm | rd_filename=''])
      = Inr [TvJob ''A'' 1 [''L0'', ''L1'']]"
  by code_simp

section \<open>The groups of a re-fetch\<close>

lemma infer_identity_total: "\<exists>ident. infer_identity link target = Inr ident"
proof -
  obtain i1 where 1: "(if truthy target
           then bind (infer_show_and_season_from_target (the target)) (\<lambda>(s, sn).
                  Inr (if truthy s then (s, sn) else (None, None)))
           else Inr (None, None)) = Inr i1"
  proof (cases "truthy target")
    case True
    from infer_target_total[of "the target"] obtain r where
      "infer_show_and_season_from_target (the target) = Inr r" by blast
    then show ?thesis using True that by (cases r) simp
  next
    case False
    then show ?thesis using that by simp
  qed
  obtain show1 season1 where i1: "i1 = (show1, season1)" by (cases i1)
  obtain i2 where 2: "(if \<not> truthy show1 \<and> truthy target
           then try_except
                  (bind (infer_from_filename_for_season (pname (Path (the target)))) (\<lambda>(s, sn).
                     Inr (if truthy s \<or> truthy_int sn then (s, sn) else (show1, season1))))
                  (\<lambda>e. Inr (show1, season1))
           else Inr (show1, season1)) = Inr i2"
  proof (cases "\<not> truthy show1 \<and> truthy target")
    case True
    from infer_filename_total[of "pname (Path (the target))"] obtain r where
      "infer_from_filename_for_season (pname (Path (the target))) = Inr r" by blast
    then show ?thesis using True that by (cases r) (simp add: try_except_def)
  next
    case False
    then show ?thesis using that by auto
  qed
  obtain show2 season2 where i2: "i2 = (show2, season2)" by (cases i2)
  obtain i3 where 3: "(if \<not> truthy show2
     then bind (infer_from_filename_for_season link) (\<lambda>(s, sn).
            Inr (if truthy s \<or> truthy_int sn then (s, sn) else (show2, season2)))
     else Inr (show2, season2)) = Inr i3"
  proof (cases "\<not> truthy show2")
    case True
    from infer_filename_total[of link] obtain r where
      "infer_from_filename_for_season link = Inr r" by blast
    then show ?thesis using True that by (cases r) simp
  next
    case False
    then show ?thesis using that by simp
  qed
  show ?thesis
    unfolding infer_identity_def 1 bind_Inr i1 prod.case 2 i2 3 by blast
qed

lemma entry_key_Some: "\<exists>k. entry_key e = Some k \<and> infer_identity (the (e_link e)) (e_target e) \<noteq> Inl x"
  using infer_identity_total[of "the (e_link e)" "e_target e"]
  by (auto simp: entry_key_def)

lemma fst_append_links:
  "map fst (map (\<lambda>(k', ls). if k' = k then (k', ls @ [l]) else (k', ls)) g) = map fst g"
  by (induction g) auto

lemma map_of_append_links:
  "map_of (map (\<lambda>(k', ls). if k' = k then (k', ls @ [l]) else (k', ls)) g) k' =
     (if k' = k then map_option (\<lambda>ls. ls @ [l]) (map_of g k) else map_of g k')"
  by (induction g) auto

lemma map_of_new_key:
  "k \<notin> set (map fst g) \<Longrightarrow> map_of (g @ [(k, [l])]) k' = (if k' = k then Some [l] else map_of g k')"
  by (induction g) auto

lemma group_links_setdefault:
  "group_links (setdefault_append k l g) k' = (if k' = k then group_links g k @ [l] else group_links g k')"
proof (cases "k \<in> set (map fst g)")
  case True
  then obtain ls where "map_of g k = Some ls"
    by (metis map_of_eq_None_iff not_None_eq set_map)
  then show ?thesis using True
    by (simp add: setdefault_append_def group_links_def map_of_append_links)
next
  case False
  then have "map_of g k = None" by (simp add: map_of_eq_None_iff)
  then show ?thesis using False map_of_new_key[OF False, of l k']
    by (simp add: setdefault_append_def group_links_def)
qed

lemma keys_setdefault: "set (map fst (setdefault_append k l g)) = insert k (set (map fst g))"
proof (cases "k \<in> set (map fst g)")
  case True
  then show ?thesis unfolding setdefault_append_def using fst_append_links[of k l g]
    by (simp only: if_True) auto
next
  case False
  then show ?thesis unfolding setdefault_append_def by (simp only: if_False) auto
qed

lemma distinct_setdefault: "distinct (map fst g) \<Longrightarrow> distinct (map fst (setdefault_append k l g))"
proof (cases "k \<in> set (map fst g)")
  case True
  assume "distinct (map fst g)"
  then show ?thesis unfolding setdefault_append_def using True fst_append_links[of k l g]
    by (simp only: if_True)
next
  case False
  assume "distinct (map fst g)"
  then show ?thesis unfolding setdefault_append_def using False by (simp only: if_False) auto
qed

lemma group_entries_links:
  assumes "distinct (map fst g0)"
  shows "\<exists>g. group_entries es g0 = Inr g \<and> distinct (map fst g)
           \<and> (\<forall>k. group_links g k = group_links g0 k @ keyed_links es k)
           \<and> set (map fst g) = set (map fst g0) \<union> {k. keyed_links es k \<noteq> []}"
  using assms
proof (induction es arbitrary: g0)
  case Nil
  then show ?case by (simp add: keyed_links_def)
next
  case (Cons e es)
  show ?case
  proof (cases "truthy (e_link e)")
    case False
    from Cons.IH[OF Cons.prems] obtain g where
      "group_entries es g0 = Inr g" "distinct (map fst g)"
      "\<forall>k. group_links g k = group_links g0 k @ keyed_links es k"
      "set (map fst g) = set (map fst g0) \<union> {k. keyed_links es k \<noteq> []}" by blast
    then show ?thesis using False by (simp add: keyed_links_def)
  next
    case True
    from infer_identity_total[of "the (e_link e)" "e_target e"] obtain ident where
      i: "infer_identity (the (e_link e)) (e_target e) = Inr ident" by blast
    then have ek: "entry_key e = Some (group_key ident)" by (simp add: entry_key_def)
    let ?k = "group_key ident"
    let ?g1 = "setdefault_append ?k (the (e_link e)) g0"
    have d1: "distinct (map fst ?g1)" using Cons.prems by (rule distinct_setdefault)
    from Cons.IH[OF d1] obtain g where
      g: "group_entries es ?g1 = Inr g" "distinct (map fst g)"
      "\<forall>k. group_links g k = group_links ?g1 k @ keyed_links es k"
      "set (map fst g) = set (map fst ?g1) \<union> {k. keyed_links es k \<noteq> []}" by blast
    have run: "group_entries (e # es) g0 = Inr g" using True i g(1) by simp
    have kl: "keyed_links (e # es) k = (if k = ?k then the (e_link e) # keyed_links es k else keyed_links es k)" for k
      using True ek by (auto simp: keyed_links_def)
    have links: "\<forall>k. group_links g k = group_links g0 k @ keyed_links (e # es) k"
    proof
      fix k
      from g(3) have "group_links g k = group_links ?g1 k @ keyed_links es k" by (rule spec)
      then show "group_links g k = group_links g0 k @ keyed_links (e # es) k"
        unfolding group_links_setdefault kl by simp
    qed
    have keys: "set (map fst g) = set (map fst g0) \<union> {k. keyed_links (e # es) k \<noteq> []}"
      unfolding g(4) keys_setdefault kl by auto
    from run g(2) links keys show ?thesis by blast
  qed
qed

text \<open>
  The grouping never raises; the keys of its groups are distinct; the group of a key
  holds the links of the entries filed under it, in the order of the log; there is a
  group for a key exactly when some entry with a link is filed under it.
\<close>

lemma refetch_groups_partition:
  "\<exists>g. group_entries es [] = Inr g \<and> distinct (map fst g)
       \<and> (\<forall>k. group_links g k = keyed_links es k)
       \<and> set (map fst g) = {k. keyed_links es k \<noteq> []}"
  using group_entries_links[of "[]" es] by (simp add: group_links_def)

section \<open>Paths and effects\<close>

lemma io_bind_Inr: "m w = (Inr x, w') \<Longrightarrow> io_bind m f w = f x w'"
  by (simp add: io_bind_def)


lemma io_bind_return [simp]: "io_bind (io_return x) f = f x"
  by (simp add: io_bind_def io_return_def)

lemma io_bind_lift_Inr [simp]: "io_bind (io_lift (Inr x)) f = f x"
  by (simp add: io_bind_def io_lift_def)

lemma split_on_absent: "c \<notin> set s \<Longrightarrow> split_on c s = [s]"
  by (induction s) (auto simp: Let_def)

lemma Path_simple:
  assumes "CHR ''/'' \<notin> set s" "s \<noteq> []" "s \<noteq> ''.''"
  shows "Path s = PPath [] [s]"
proof -
  from assms(1,2) have hd: "hd s \<noteq> CHR ''/''" by (cases s) auto
  then have tw: "takeWhile (\<lambda>c. c = CHR ''/'') s = []" using assms(2) by (cases s) auto
  have dw: "dropWhile (\<lambda>c. c = CHR ''/'') s = s" using hd assms(2) by (cases s) auto
  show ?thesis
    unfolding Path_def Let_def tw dw split_on_absent[OF assms(1)]
    using assms(2,3) by simp
qed

lemma path_div_simple:
  assumes "CHR ''/'' \<notin> set s" "s \<noteq> []" "s \<noteq> ''.''"
  shows "path_div p s = PPath (anchor p) (segs p @ [s])"
  unfolding path_div_def Let_def Path_simple[OF assms] by simp

lemma nat_digits_digits: "set (nat_digits n) \<subseteq> set ''0123456789''"
proof (induction n rule: nat_digits.induct)
  case (1 n)
  have all: "\<forall>k \<in> set [0..<10]. char_of (48 + k) \<in> set ''0123456789''"
    by code_simp
  have small: "\<And>k::nat. k < 10 \<Longrightarrow> char_of (48 + k) \<in> set ''0123456789''"
  proof -
    fix k :: nat assume "k < 10"
    then have "k \<in> set [0..<10]" by simp
    with all show "char_of (48 + k) \<in> set ''0123456789''" by blast
  qed
  show ?case
  proof (cases "n < 10")
    case True
    then show ?thesis using small[of n] by (subst nat_digits.simps) simp
  next
    case False
    have "n mod 10 < 10" by simp
    then have "char_of (48 + n mod 10) \<in> set ''0123456789''" by (rule small)
    then show ?thesis using False 1 by (subst nat_digits.simps) simp
  qed
qed

lemma nat_digits_nonempty: "nat_digits n \<noteq> []"
  by (subst nat_digits.simps) simp

lemma fmt02d_no_slash: "CHR ''/'' \<notin> set (fmt02d n)"
proof -
  have "\<And>k. CHR ''/'' \<notin> set (nat_digits k)" using nat_digits_digits by fastforce
  then show ?thesis by (simp add: fmt02d_def)
qed

lemma season_folder_simple:
  "CHR ''/'' \<notin> set (''Season '' @ fmt02d n) \<and> ''Season '' @ fmt02d n \<noteq> [] \<and> ''Season '' @ fmt02d n \<noteq> ''.''"
  using fmt02d_no_slash[of n] by simp

lemma strm_name_simple:
  assumes "CHR ''/'' \<notin> set b"
  shows "CHR ''/'' \<notin> set (b @ ''.strm'') \<and> b @ ''.strm'' \<noteq> [] \<and> b @ ''.strm'' \<noteq> ''.''"
proof -
  have "b @ ''.strm'' \<noteq> ''.''"
  proof
    assume "b @ ''.strm'' = ''.''"
    then have "length (b @ ''.strm'') = length ''.''" by (rule arg_cong)
    then show False by simp
  qed
  then show ?thesis using assms by simp
qed

section \<open>Single movie and episode\<close>

lemma add_episode_dest_shape:
  "\<exists>final_name. add_episode_dest E show season episode resp =
       Inr (PPath (anchor (path_div (path_div (media_root E) ''tv'') (sanitize_name show)))
              (segs (path_div (path_div (media_root E) ''tv'') (sanitize_name show))
                 @ [''Season '' @ fmt02d season, final_name]))"
proof -
  let ?X = "path_div (path_div (media_root E) ''tv'') (sanitize_name show)"
  let ?sf = "''Season '' @ fmt02d season"
  let ?fin = "\<lambda>base. (if search_SddEdd (sanitize_name base) then sanitize_name base @ ''.strm''
                   else sanitize_name base @ '' - '' @ (''S'' @ fmt02d season @ ''E'' @ fmt02d episode) @ ''.strm'')"
  obtain base where b: "(if truthy (rd_filename resp)
               then Inr (strip_extension (the (rd_filename resp)))
               else bind (name_from_url (urls E) (the (rd_direct resp))) (\<lambda>base.
                      Inr (strip_extension base))) = Inr base"
  proof (cases "truthy (rd_filename resp)")
    case True
    then show ?thesis using that by simp
  next
    case False
    from name_from_url_total[of "urls E" "the (rd_direct resp)"] obtain n where
      "name_from_url (urls E) (the (rd_direct resp)) = Inr n" by blast
    then show ?thesis using False that by simp
  qed
  have ns: "CHR ''/'' \<notin> set (sanitize_name base)" by (rule sanitize_name_no_slash)
  have fin: "CHR ''/'' \<notin> set (?fin base) \<and> ?fin base \<noteq> [] \<and> ?fin base \<noteq> ''.''"
  proof (cases "search_SddEdd (sanitize_name base)")
    case True
    then have e: "?fin base = sanitize_name base @ ''.strm''" by (simp only: if_True)
    show ?thesis unfolding e by (rule strm_name_simple[OF ns])
  next
    case False
    let ?b = "sanitize_name base @ '' - S'' @ fmt02d season @ ''E'' @ fmt02d episode"
    have nb: "CHR ''/'' \<notin> set ?b" using ns fmt02d_no_slash by simp
    from False have e: "?fin base = ?b @ ''.strm''" by (simp only: if_False) simp
    show ?thesis unfolding e by (rule strm_name_simple[OF nb])
  qed
  have sf: "path_div ?X ?sf = PPath (anchor ?X) (segs ?X @ [?sf])"
    using season_folder_simple[of season] path_div_simple by blast
  have d: "path_div (path_div ?X ?sf) (?fin base) = PPath (anchor ?X) (segs ?X @ [?sf, ?fin base])"
    unfolding sf using fin path_div_simple[of "?fin base" "PPath (anchor ?X) (segs ?X @ [?sf])"] by simp
  have "add_episode_dest E show season episode resp = Inr (path_div (path_div ?X ?sf) (?fin base))"
    unfolding add_episode_dest_def Let_def b by simp
  then show ?thesis unfolding d by blast
qed

lemma add_episode_placed:
  assumes "unrestrict E link w = (Inr resp, w1)" "truthy (rd_direct resp)"
  shows "\<exists>dest. add_episode E show season episode link w = placed E ''tv'' link resp dest w1
           \<and> pname (parent dest) = ''Season '' @ fmt02d season"
proof -
  from add_episode_dest_shape[of E "show" season episode resp] obtain final_name where
    d: "add_episode_dest E show season episode resp =
       Inr (PPath (anchor (path_div (path_div (media_root E) ''tv'') (sanitize_name show)))
              (segs (path_div (path_div (media_root E) ''tv'') (sanitize_name show))
                 @ [''Season '' @ fmt02d season, final_name]))" by blast
  let ?dest = "PPath (anchor (path_div (path_div (media_root E) ''tv'') (sanitize_name show)))
              (segs (path_div (path_div (media_root E) ''tv'') (sanitize_name show))
                 @ [''Season '' @ fmt02d season, final_name])"
  have "add_episode E show season episode link w = placed E ''tv'' link resp ?dest w1"
    unfolding add_episode_def placed_def
    using assms(2) by (simp add: io_bind_Inr[of "unrestrict E link" w resp w1, OF assms(1)] d)
  moreover have "pname (parent ?dest) = ''Season '' @ fmt02d season"
    by (simp add: pname_def parent_def butlast_append)
  ultimately show ?thesis by blast
qed

lemma add_episode_example:
  "files (snd (add_episode (mem_env (one_link (Some ''Show.S05E03.mkv''))) ''Show'' 2 9 ''L'' empty_mem))
     = [(PPath ''/'' [''media'', ''tv'', ''Show'', ''Season 02'', ''Show.S05E03.strm''],
         ''http://d/x'' @ [CHR 0x0A])]"
  by code_simp

text \<open>
  Claim C10. When the link resolves, \<open>add_episode\<close> places the descriptor at a path
  whose directory is named \<open>Season NN\<close> after the season argument, whatever the
  resolved filename contains. In the example the filename carries \<open>S05E03\<close> and the
  season argument is \<open>2\<close>: the file \<open>Show.S05E03.strm\<close> is written under
  \<open>Season 02\<close>.
\<close>

theorem add_episode_season_folder:
  "(unrestrict E link w = (Inr resp, w1) \<and> truthy (rd_direct resp) \<longrightarrow>
      (\<exists>dest. add_episode E show season episode link w = placed E ''tv'' link resp dest w1
           \<and> pname (parent dest) = ''Season '' @ fmt02d season))
   \<and> files (snd (add_episode (mem_env (one_link (Some ''Show.S05E03.mkv''))) ''Show'' 2 9 ''L''
        empty_mem))
     = [(PPath ''/'' [''media'', ''tv'', ''Show'', ''Season 02'', ''Show.S05E03.strm''],
         ''http://d/x'' @ [CHR 0x0A])]"
proof (intro conjI impI)
  assume a: "unrestrict E link w = (Inr resp, w1) \<and> truthy (rd_direct resp)"
  from a have 1: "unrestrict E link w = (Inr resp, w1)" and 2: "truthy (rd_direct resp)"
    by blast+
  show "\<exists>dest. add_episode E show season episode link w = placed E ''tv'' link resp dest w1
           \<and> pname (parent dest) = ''Season '' @ fmt02d season"
    by (rule add_episode_placed[OF 1 2])
next
  show "files (snd (add_episode (mem_env (one_link (Some ''Show.S05E03.mkv''))) ''Show'' 2 9 ''L''
        empty_mem))
     = [(PPath ''/'' [''media'', ''tv'', ''Show'', ''Season 02'', ''Show.S05E03.strm''],
         ''http://d/x'' @ [CHR 0x0A])]"
    by (rule add_episode_example)
qed

theorem add_episode_season_folder_witness:
  "unrestrict (mem_env (one_link (Some ''Show.S05E03.mkv''))) ''L'' empty_mem
     = (Inr \<lparr>rd_filename = Some ''Show.S05E03.mkv'', rd_direct = Some ''http://d/x''\<rparr>, empty_mem)
   \<and> truthy (rd_direct \<lparr>rd_filename = Some ''Show.S05E03.mkv'', rd_direct = Some ''http://d/x''\<rparr>)
   \<and> (\<exists>dest. add_episode (mem_env (one_link (Some ''Show.S05E03.mkv''))) ''Show'' 2 9 ''L'' empty_mem
          = placed (mem_env (one_link (Some ''Show.S05E03.mkv''))) ''tv'' ''L''
              \<lparr>rd_filename = Some ''Show.S05E03.mkv'', rd_direct = Some ''http://d/x''\<rparr> dest empty_mem
        \<and> pname (parent dest) = ''Season 02'')"
proof -
  let ?E = "mem_env (one_link (Some ''Show.S05E03.mkv''))"
  let ?r = "\<lparr>rd_filename = Some ''Show.S05E03.mkv'', rd_direct = Some ''http://d/x''\<rparr>"
  have h1: "unrestrict ?E ''L'' empty_mem = (Inr ?r, empty_mem)"
    by (simp add: mem_env_def one_link_def io_lift_def)
  have h2: "truthy (rd_direct ?r)"
    by simp
  have f: "fmt02d 2 = ''02''"
    by code_simp
  from add_episode_season_folder[of ?E "''L''" empty_mem ?r empty_mem "''Show''" 2 9,
      THEN conjunct1, rule_format, OF conjI, OF h1 h2]
  have "\<exists>dest. add_episode ?E ''Show'' 2 9 ''L'' empty_mem = placed ?E ''tv'' ''L'' ?r dest empty_mem
           \<and> pname (parent dest) = ''Season 02''"
    unfolding f by simp
  with h1 h2 show ?thesis by (intro conjI)
qed

lemma add_movie_dest_shape:
  assumes "sanitize_name (strip_extension title) \<noteq> []" "sanitize_name (strip_extension title) \<noteq> ''.''"
  shows "add_movie_dest E title =
           PPath (anchor (path_div (media_root E) ''movies''))
             (segs (path_div (media_root E) ''movies'')
                @ [sanitize_name (strip_extension title), sanitize_name (strip_extension title) @ ''.strm''])"
proof -
  let ?safe = "sanitize_name (strip_extension title)"
  let ?M = "path_div (media_root E) ''movies''"
  have ns: "CHR ''/'' \<notin> set ?safe" by (rule sanitize_name_no_slash)
  have 1: "path_div ?M ?safe = PPath (anchor ?M) (segs ?M @ [?safe])"
    using path_div_simple[OF ns assms] .
  have 2: "path_div (PPath (anchor ?M) (segs ?M @ [?safe])) (?safe @ ''.strm'')
             = PPath (anchor ?M) (segs ?M @ [?safe, ?safe @ ''.strm''])"
    using strm_name_simple[OF ns] path_div_simple[of "?safe @ ''.strm''" "PPath (anchor ?M) (segs ?M @ [?safe])"]
    by simp
  show ?thesis unfolding add_movie_dest_def Let_def 1 2 ..
qed

text \<open>
  Claim C9 holds while the sanitized stem is a proper path segment
  (\<open>add_movie_dest_shape\<close>). It is not when \<open>sanitize_name\<close> returns the empty string:
  for the title \<open>???\<close>, and for a link resolved to the filename \<open>???.mkv\<close>, the
  descriptor is written to \<open>movies/.strm\<close>, a file in the directory \<open>movies\<close> with an
  empty base name.
\<close>

theorem add_movie_reserved_title:
  "map fst (files (snd (add_movie (mem_env (one_link None)) ''???'' ''L'' empty_mem)))
     = [PPath ''/'' [''media'', ''movies'', ''.strm'']]
   \<and> map fst (files (snd (add_movie_links_from_list (mem_env (one_link (Some ''???.mkv'')))
        [''L''] empty_mem)))
     = [PPath ''/'' [''media'', ''movies'', ''.strm'']]"
  by code_simp

section \<open>Lists of links\<close>

lemma search_SddEdd_append_left: "search_SddEdd s \<Longrightarrow> search_SddEdd (p @ s)"
  by (induction p) simp_all

lemma match_SddEdd_iff:
  "match_SddEdd s \<longleftrightarrow>
     (\<exists>c d1 d2 e d3 d4 post. s = [c, d1, d2, e, d3, d4] @ post \<and> c \<in> set ''Ss'' \<and> is_digit d1
        \<and> is_digit d2 \<and> e \<in> set ''Ee'' \<and> is_digit d3 \<and> is_digit d4)"
proof
  assume "match_SddEdd s"
  then show "\<exists>c d1 d2 e d3 d4 post. s = [c, d1, d2, e, d3, d4] @ post \<and> c \<in> set ''Ss'' \<and> is_digit d1
        \<and> is_digit d2 \<and> e \<in> set ''Ee'' \<and> is_digit d3 \<and> is_digit d4"
    by (rule match_SddEdd.elims) auto
next
  assume "\<exists>c d1 d2 e d3 d4 post. s = [c, d1, d2, e, d3, d4] @ post \<and> c \<in> set ''Ss'' \<and> is_digit d1
        \<and> is_digit d2 \<and> e \<in> set ''Ee'' \<and> is_digit d3 \<and> is_digit d4"
  then obtain c d1 d2 e d3 d4 post where
    "s = c # d1 # d2 # e # d3 # d4 # post" "c \<in> set ''Ss''" "is_digit d1" "is_digit d2"
    "e \<in> set ''Ee''" "is_digit d3" "is_digit d4"
    by auto
  then show "match_SddEdd s" by simp
qed

lemma search_SddEdd_iff: "search_SddEdd s \<longleftrightarrow> spec_has_marker s"
proof
  assume "search_SddEdd s"
  then show "spec_has_marker s"
  proof (induction s)
    case Nil
    then show ?case by simp
  next
    case (Cons x xs)
    from Cons.prems have "match_SddEdd (x # xs) \<or> search_SddEdd xs" by simp
    then show ?case
    proof
      assume "match_SddEdd (x # xs)"
      then obtain c d1 d2 e d3 d4 post where
        "x # xs = [] @ [c, d1, d2, e, d3, d4] @ post \<and> c \<in> set ''Ss'' \<and> is_digit d1
        \<and> is_digit d2 \<and> e \<in> set ''Ee'' \<and> is_digit d3 \<and> is_digit d4"
        unfolding match_SddEdd_iff by auto
      then show ?thesis unfolding spec_has_marker_def by blast
    next
      assume "search_SddEdd xs"
      from Cons.IH[OF this] obtain pre c d1 d2 e d3 d4 post where
        "xs = pre @ [c, d1, d2, e, d3, d4] @ post \<and> c \<in> set ''Ss'' \<and> is_digit d1
        \<and> is_digit d2 \<and> e \<in> set ''Ee'' \<and> is_digit d3 \<and> is_digit d4"
        unfolding spec_has_marker_def by blast
      then have "x # xs = (x # pre) @ [c, d1, d2, e, d3, d4] @ post \<and> c \<in> set ''Ss'' \<and> is_digit d1
        \<and> is_digit d2 \<and> e \<in> set ''Ee'' \<and> is_digit d3 \<and> is_digit d4"
        by simp
      then show ?thesis unfolding spec_has_marker_def by blast
    qed
  qed
next
  assume "spec_has_marker s"
  then obtain pre c d1 d2 e d3 d4 post where
    s: "s = pre @ [c, d1, d2, e, d3, d4] @ post" and m: "c \<in> set ''Ss''" "is_digit d1"
      "is_digit d2" "e \<in> set ''Ee''" "is_digit d3" "is_digit d4"
    unfolding spec_has_marker_def by blast
  from m have "match_SddEdd ([c, d1, d2, e, d3, d4] @ post)" by simp
  then have "search_SddEdd ([c, d1, d2, e, d3, d4] @ post)" by simp
  then show "search_SddEdd s" unfolding s by (rule search_SddEdd_append_left)
qed

lemma batch_base_total: "\<exists>base. batch_base U resp link dflt = Inr base"
proof -
  obtain fname where f: "(if \<not> truthy (rd_filename resp) \<and> truthy (rd_direct resp)
           then bind (name_from_url U (the (rd_direct resp))) (\<lambda>n. Inr (Some n))
           else Inr (rd_filename resp)) = Inr fname"
  proof (cases "\<not> truthy (rd_filename resp) \<and> truthy (rd_direct resp)")
    case True
    from name_from_url_total[of U "the (rd_direct resp)"] obtain n where
      "name_from_url U (the (rd_direct resp)) = Inr n" by blast
    then show ?thesis using True that by simp
  next
    case False
    then show ?thesis using that by auto
  qed
  obtain name where n: "(if truthy fname then Inr (the fname)
           else bind (name_from_url U link) (\<lambda>n. Inr (if n \<noteq> [] then n else dflt))) = Inr name"
  proof (cases "truthy fname")
    case True
    then show ?thesis using that by simp
  next
    case False
    from name_from_url_total[of U link] obtain n where "name_from_url U link = Inr n" by blast
    then show ?thesis using False that by simp
  qed
  show ?thesis unfolding batch_base_def f bind_Inr n by simp
qed

lemma io_bind_assoc: "io_bind (io_bind m f) g = io_bind m (\<lambda>x. io_bind (f x) g)"
  by (auto simp: io_bind_def fun_eq_iff split: prod.splits sum.splits)

lemma episode_link_body_marker:
  assumes "unrestrict E link w = (Inr resp, w1)" "truthy (rd_direct resp)"
    "batch_base (urls E) resp link (show_name @ ''_ep'') = Inr base"
    "spec_has_marker (sanitize_name base)"
  shows "episode_link_body E show_name season season_path link w =
           placed E ''tv'' link resp (path_div season_path (sanitize_name base @ ''.strm'')) w1"
proof -
  from assms(4) have s: "search_SddEdd (sanitize_name base)" by (simp add: search_SddEdd_iff)
  show ?thesis
    unfolding episode_link_body_def placed_def
    using assms(2) s
    by (simp add: io_bind_Inr[of "unrestrict E link" w resp w1, OF assms(1)] assms(3) Let_def)
qed

lemma episode_link_body_indexed:
  assumes "unrestrict E link w = (Inr resp, w1)" "truthy (rd_direct resp)"
    "batch_base (urls E) resp link (show_name @ ''_ep'') = Inr base"
    "\<not> spec_has_marker (sanitize_name base)"
    "glob_strm E season_path w1 = (Inr found, w2)"
  shows "episode_link_body E show_name season season_path link w =
           placed E ''tv'' link resp
             (path_div season_path
                (sanitize_name base @ '' - S'' @ fmt02d season @ ''E''
                   @ fmt02d (int (length found) + 1) @ ''.strm'')) w2"
proof -
  from assms(4) have s: "\<not> search_SddEdd (sanitize_name base)" by (simp add: search_SddEdd_iff)
  have g: "io_bind (glob_strm E season_path) f w1 = f found w2" for f :: "string list \<Rightarrow> ('a, 'b) io"
    by (rule io_bind_Inr[of "glob_strm E season_path" w1 found w2, OF assms(5)])
  show ?thesis
    unfolding episode_link_body_def placed_def
    using assms(2) s
    by (simp add: io_bind_Inr[of "unrestrict E link" w resp w1, OF assms(1)] assms(3) Let_def
          io_bind_assoc g add.commute)
qed



lemma links_loop_outcomes:
  "\<exists>w'. links_loop body ls written errors w =
      ((written + length (successes (item_outcomes body ls w)),
        errors @ failures (item_outcomes body ls w)), w')"
proof (induction ls arbitrary: written errors w)
  case Nil
  show ?case by (simp add: successes_def failures_def List.map_filter_simps)
next
  case (Cons l ls)
  show ?case
  proof (cases "py_strip l = []")
    case True
    then show ?thesis using Cons.IH[of written errors w] by simp
  next
    case False
    obtain r w1 where b: "body (py_strip l) w = (r, w1)" by (cases "body (py_strip l) w")
    show ?thesis
    proof (cases r)
      case (Inl e)
      from Cons.IH[of written "errors @ [(py_strip l, exn_str e)]" w1] obtain w' where
        "links_loop body ls written (errors @ [(py_strip l, exn_str e)]) w1 =
          ((written + length (successes (item_outcomes body ls w1)),
            (errors @ [(py_strip l, exn_str e)]) @ failures (item_outcomes body ls w1)), w')" by blast
      then show ?thesis using False b Inl
        by (simp add: Let_def successes_def failures_def List.map_filter_simps)
    next
      case (Inr u)
      from Cons.IH[of "written + 1" errors w1] obtain w' where
        "links_loop body ls (written + 1) errors w1 =
          ((written + 1 + length (successes (item_outcomes body ls w1)),
            errors @ failures (item_outcomes body ls w1)), w')" by blast
      then show ?thesis using False b Inr
        by (simp add: Let_def successes_def failures_def List.map_filter_simps)
    qed
  qed
qed



lemma episode_batch_example:
  "map (\<lambda>f. pname (fst f))
     (files (snd (add_episode_links_from_list (mem_env three_links) ''Show'' 1
        [''L1'', ''L2'', ''L3'', ''L1''] empty_mem)))
   = [''One - S01E01.strm'', ''Three.S01E07.strm'', ''One - S01E03.strm'']"
  by code_simp

text \<open>
  Claim C1. For a link of \<open>add_episode_links_from_list\<close> that resolves with a direct
  URL, let \<open>base\<close> be the name the operation derives (\<open>batch_base\<close>). When its
  sanitized form contains a marker \<open>S<2 digits>E<2 digits>\<close> in either case, the
  descriptor is placed at \<open>season_path / (base_safe + ".strm")\<close>. Otherwise the
  directory is listed in the world reached at that moment, and the descriptor is placed
  at \<open>season_path / (base_safe + " - SssEee.strm")\<close>, \<open>ss\<close> the season and \<open>ee\<close>
  the number of \<open>.strm\<close> entries found plus one, both in the format \<open>02d\<close>. In the
  example the second unmarked link finds two descriptors and gets \<open>E03\<close>.
\<close>

theorem episode_link_final_name:
  "(unrestrict E link w = (Inr resp, w1) \<and> truthy (rd_direct resp) \<longrightarrow>
     (\<exists>base. batch_base (urls E) resp link (show_name @ ''_ep'') = Inr base
        \<and> (spec_has_marker (sanitize_name base) \<longrightarrow>
             episode_link_body E show_name season season_path link w =
               placed E ''tv'' link resp (path_div season_path (sanitize_name base @ ''.strm'')) w1)
        \<and> (\<not> spec_has_marker (sanitize_name base) \<longrightarrow>
             (\<forall>found w2. glob_strm E season_path w1 = (Inr found, w2) \<longrightarrow>
                episode_link_body E show_name season season_path link w =
                  placed E ''tv'' link resp
                    (path_div season_path
                       (sanitize_name base @ '' - S'' @ fmt02d season @ ''E''
                          @ fmt02d (int (length found) + 1) @ ''.strm'')) w2))))
   \<and> map (\<lambda>f. pname (fst f))
        (files (snd (add_episode_links_from_list (mem_env three_links) ''Show'' 1
           [''L1'', ''L2'', ''L3'', ''L1''] empty_mem)))
      = [''One - S01E01.strm'', ''Three.S01E07.strm'', ''One - S01E03.strm'']"
proof (intro conjI impI)
  assume a: "unrestrict E link w = (Inr resp, w1) \<and> truthy (rd_direct resp)"
  then have 1: "unrestrict E link w = (Inr resp, w1)" and 2: "truthy (rd_direct resp)"
    by blast+
  from batch_base_total[of "urls E" resp link "show_name @ ''_ep''"] obtain base where
    b: "batch_base (urls E) resp link (show_name @ ''_ep'') = Inr base" by blast
  show "\<exists>base. batch_base (urls E) resp link (show_name @ ''_ep'') = Inr base
        \<and> (spec_has_marker (sanitize_name base) \<longrightarrow>
             episode_link_body E show_name season season_path link w =
               placed E ''tv'' link resp (path_div season_path (sanitize_name base @ ''.strm'')) w1)
        \<and> (\<not> spec_has_marker (sanitize_name base) \<longrightarrow>
             (\<forall>found w2. glob_strm E season_path w1 = (Inr found, w2) \<longrightarrow>
                episode_link_body E show_name season season_path link w =
                  placed E ''tv'' link resp
                    (path_div season_path
                       (sanitize_name base @ '' - S'' @ fmt02d season @ ''E''
                          @ fmt02d (int (length found) + 1) @ ''.strm'')) w2))"
  proof (intro exI[of _ base] conjI impI allI)
    show "batch_base (urls E) resp link (show_name @ ''_ep'') = Inr base" by (rule b)
  next
    assume "spec_has_marker (sanitize_name base)"
    then show "episode_link_body E show_name season season_path link w =
               placed E ''tv'' link resp (path_div season_path (sanitize_name base @ ''.strm'')) w1"
      by (rule episode_link_body_marker[OF 1 2 b])
  next
    fix found w2
    assume n: "\<not> spec_has_marker (sanitize_name base)"
      and g: "glob_strm E season_path w1 = (Inr found, w2)"
    show "episode_link_body E show_name season season_path link w =
                  placed E ''tv'' link resp
                    (path_div season_path
                       (sanitize_name base @ '' - S'' @ fmt02d season @ ''E''
                          @ fmt02d (int (length found) + 1) @ ''.strm'')) w2"
      by (rule episode_link_body_indexed[OF 1 2 b n g])
  qed
next
  show "map (\<lambda>f. pname (fst f))
        (files (snd (add_episode_links_from_list (mem_env three_links) ''Show'' 1
           [''L1'', ''L2'', ''L3'', ''L1''] empty_mem)))
      = [''One - S01E01.strm'', ''Three.S01E07.strm'', ''One - S01E03.strm'']"
    by (rule episode_batch_example)
qed

theorem episode_link_final_name_witness:
  "unrestrict (mem_env three_links) ''L3'' empty_mem
     = (Inr \<lparr>rd_filename = Some ''Three.S01E07.mkv'', rd_direct = Some ''http://d/3''\<rparr>, empty_mem)
   \<and> truthy (rd_direct \<lparr>rd_filename = Some ''Three.S01E07.mkv'', rd_direct = Some ''http://d/3''\<rparr>)
   \<and> search_SddEdd ''Three.S01E07''
   \<and> episode_link_body (mem_env three_links) ''Show'' 1 (Path ''/media/tv/Show/Season 01'') ''L3'' empty_mem
       = placed (mem_env three_links) ''tv'' ''L3''
           \<lparr>rd_filename = Some ''Three.S01E07.mkv'', rd_direct = Some ''http://d/3''\<rparr>
           (path_div (Path ''/media/tv/Show/Season 01'') ''Three.S01E07.strm'') empty_mem
   \<and> unrestrict (mem_env three_links) ''L1'' empty_mem
       = (Inr \<lparr>rd_filename = Some ''One.mkv'', rd_direct = Some ''http://d/1''\<rparr>, empty_mem)
   \<and> truthy (rd_direct \<lparr>rd_filename = Some ''One.mkv'', rd_direct = Some ''http://d/1''\<rparr>)
   \<and> \<not> search_SddEdd ''One''
   \<and> glob_strm (mem_env three_links) (Path ''/media/tv/Show/Season 01'') empty_mem = (Inr [], empty_mem)
   \<and> episode_link_body (mem_env three_links) ''Show'' 1 (Path ''/media/tv/Show/Season 01'') ''L1'' empty_mem
       = placed (mem_env three_links) ''tv'' ''L1''
           \<lparr>rd_filename = Some ''One.mkv'', rd_direct = Some ''http://d/1''\<rparr>
           (path_div (Path ''/media/tv/Show/Season 01'') ''One - S01E01.strm'') empty_mem"
proof -
  let ?E = "mem_env three_links"
  let ?sp = "Path ''/media/tv/Show/Season 01''"
  let ?r3 = "\<lparr>rd_filename = Some ''Three.S01E07.mkv'', rd_direct = Some ''http://d/3''\<rparr>"
  let ?r1 = "\<lparr>rd_filename = Some ''One.mkv'', rd_direct = Some ''http://d/1''\<rparr>"
  have u3: "unrestrict ?E ''L3'' empty_mem = (Inr ?r3, empty_mem)"
    by (simp add: mem_env_def three_links_def io_lift_def)
  have u1: "unrestrict ?E ''L1'' empty_mem = (Inr ?r1, empty_mem)"
    by (simp add: mem_env_def three_links_def io_lift_def)
  have t3: "truthy (rd_direct ?r3)" and t1: "truthy (rd_direct ?r1)"
    by simp_all
  have b3: "batch_base (urls ?E) ?r3 ''L3'' (''Show'' @ ''_ep'') = Inr ''Three.S01E07''"
    by code_simp
  have b1: "batch_base (urls ?E) ?r1 ''L1'' (''Show'' @ ''_ep'') = Inr ''One''"
    by code_simp
  have s3: "sanitize_name ''Three.S01E07'' = ''Three.S01E07''" and s1: "sanitize_name ''One'' = ''One''"
    by code_simp+
  have m3: "search_SddEdd ''Three.S01E07''" and m1: "\<not> search_SddEdd ''One''"
    by code_simp+
  have g: "glob_strm ?E ?sp empty_mem = (Inr [], empty_mem)"
    by (simp add: mem_env_def mem_glob_strm_def empty_mem_def)
  have n: "''One'' @ '' - S'' @ fmt02d 1 @ ''E'' @ fmt02d (int (length ([] :: string list)) + 1) @ ''.strm''
             = ''One - S01E01.strm''"
    by code_simp
  from episode_link_final_name[of ?E "''L3''" empty_mem ?r3 empty_mem "''Show''" 1 ?sp,
      THEN conjunct1, rule_format, OF conjI, OF u3 t3]
  obtain base where "batch_base (urls ?E) ?r3 ''L3'' (''Show'' @ ''_ep'') = Inr base"
    and i: "spec_has_marker (sanitize_name base) \<longrightarrow>
             episode_link_body ?E ''Show'' 1 ?sp ''L3'' empty_mem =
               placed ?E ''tv'' ''L3'' ?r3 (path_div ?sp (sanitize_name base @ ''.strm'')) empty_mem"
    by blast
  with b3 have "base = ''Three.S01E07''" by simp
  with i s3 m3 have c3: "episode_link_body ?E ''Show'' 1 ?sp ''L3'' empty_mem =
               placed ?E ''tv'' ''L3'' ?r3 (path_div ?sp ''Three.S01E07.strm'') empty_mem"
    by (simp add: search_SddEdd_iff)
  from episode_link_final_name[of ?E "''L1''" empty_mem ?r1 empty_mem "''Show''" 1 ?sp,
      THEN conjunct1, rule_format, OF conjI, OF u1 t1]
  obtain base' where "batch_base (urls ?E) ?r1 ''L1'' (''Show'' @ ''_ep'') = Inr base'"
    and j: "\<not> spec_has_marker (sanitize_name base') \<longrightarrow>
             (\<forall>found w2. glob_strm ?E ?sp empty_mem = (Inr found, w2) \<longrightarrow>
                episode_link_body ?E ''Show'' 1 ?sp ''L1'' empty_mem =
                  placed ?E ''tv'' ''L1'' ?r1
                    (path_div ?sp
                       (sanitize_name base' @ '' - S'' @ fmt02d 1 @ ''E''
                          @ fmt02d (int (length found) + 1) @ ''.strm'')) w2)"
    by blast
  with b1 have "base' = ''One''" by simp
  with j s1 m1 have "\<forall>found w2. glob_strm ?E ?sp empty_mem = (Inr found, w2) \<longrightarrow>
                episode_link_body ?E ''Show'' 1 ?sp ''L1'' empty_mem =
                  placed ?E ''tv'' ''L1'' ?r1
                    (path_div ?sp
                       (''One'' @ '' - S'' @ fmt02d 1 @ ''E''
                          @ fmt02d (int (length found) + 1) @ ''.strm'')) w2"
    by (simp only: search_SddEdd_iff[symmetric] not_False_eq_True simp_thms)
  from this[rule_format, OF g] have c1: "episode_link_body ?E ''Show'' 1 ?sp ''L1'' empty_mem =
               placed ?E ''tv'' ''L1'' ?r1 (path_div ?sp ''One - S01E01.strm'') empty_mem"
    unfolding n .
  show ?thesis
    by (intro conjI u3 t3 m3 c3 u1 t1 m1 g c1)
qed

lemma movie_batch_example:
  "fst (add_movie_links_from_list (mem_env three_links) [''L1'', ''L2'', ''L3''] empty_mem)
     = Inr (2, [(''L2'', ''Real-Debrid error 503: busy'')])"
  "map fst (files (snd (add_movie_links_from_list (mem_env three_links) [''L1'', ''L2'', ''L3''] empty_mem)))
     = [PPath ''/'' [''media'', ''movies'', ''One'', ''One.strm''],
        PPath ''/'' [''media'', ''movies'', ''Three.S01E07'', ''Three.S01E07.strm'']]"
  by code_simp+

lemma add_movie_links_result:
  "\<exists>w'. add_movie_links_from_list E links w =
      (Inr (length (successes (item_outcomes (movie_link_body E) links w)),
            failures (item_outcomes (movie_link_body E) links w)), w')"
proof -
  from links_loop_outcomes[of "movie_link_body E" links 0 "[]" w] obtain w' where
    "links_loop (movie_link_body E) links 0 [] w =
      ((0 + length (successes (item_outcomes (movie_link_body E) links w)),
        [] @ failures (item_outcomes (movie_link_body E) links w)), w')" by blast
  then show ?thesis by (simp add: add_movie_links_from_list_def)
qed

lemma add_episode_links_result:
  assumes "mkdir_parents E (path_div (path_div (path_div (media_root E) ''tv'') (sanitize_name show))
             (''Season '' @ fmt02d season)) w = (Inr (), w0)"
  shows "\<exists>w'. add_episode_links_from_list E show season links w =
      (Inr (length (successes (item_outcomes (episode_link_body E (sanitize_name show) season
               (path_div (path_div (path_div (media_root E) ''tv'') (sanitize_name show))
                  (''Season '' @ fmt02d season))) links w0)),
            failures (item_outcomes (episode_link_body E (sanitize_name show) season
               (path_div (path_div (path_div (media_root E) ''tv'') (sanitize_name show))
                  (''Season '' @ fmt02d season))) links w0)), w')"
proof -
  let ?sp = "path_div (path_div (path_div (media_root E) ''tv'') (sanitize_name show))
               (''Season '' @ fmt02d season)"
  let ?body = "episode_link_body E (sanitize_name show) season ?sp"
  from links_loop_outcomes[of ?body links 0 "[]" w0] obtain w' where
    l: "links_loop ?body links 0 [] w0 =
      ((0 + length (successes (item_outcomes ?body links w0)),
        [] @ failures (item_outcomes ?body links w0)), w')" by blast
  have "add_episode_links_from_list E show season links w =
          (case links_loop ?body links 0 [] w0 of (r, w') \<Rightarrow> (Inr r, w'))"
    unfolding add_episode_links_from_list_def Let_def
    by (rule io_bind_Inr[of "mkdir_parents E ?sp" w "()" w0, OF assms])
  then show ?thesis using l by simp
qed















end
